theory Spec2Isabelle
  imports Complex_Main "HOL-Library.Stream"
begin

section \<open>Wildfire grid and drone swarm of reactcode.jsx\<close>

text \<open>
  JavaScript numbers are modelled as follows: grid coordinates, cooldowns, water levels and
  timers, which the program only ever holds as integers, are \<open>int\<close>; elevations,
  probabilities, positions, velocities and the simulation clock are \<open>real\<close> (rounding of
  IEEE doubles is not modelled); a fitness value, which can be \<open>Infinity\<close>, is a
  \<open>jsnum\<close>.  \<open>Math.random()\<close> reads the head of a stream of reals, which is threaded
  through every function that draws.
\<close>

subsection \<open>Constants\<close>

definition DRONE_SPEED :: real where "DRONE_SPEED = 10"
definition CELL_SIZE :: real where "CELL_SIZE = 10"
definition REFILL_TIME :: int where "REFILL_TIME = 30"
definition EXTINGUISH_TIME :: real where "EXTINGUISH_TIME = 40"
definition MAX_WATER_CAPACITY :: int where "MAX_WATER_CAPACITY = 3"

subsection \<open>Cell and Environment\<close>

record cell =
  tree :: bool
  fire :: bool
  burnt :: bool
  water :: bool
  elevation :: real
  fire_cooldown :: int
  extinguished_by_drone :: bool

definition new_Cell :: "real \<Rightarrow> cell" where
  "new_Cell e = \<lparr>tree = True, fire = False, burnt = False, water = False,
     elevation = e, fire_cooldown = 0, extinguished_by_drone = False\<rparr>"

record environment =
  width :: int
  height :: int
  grid :: "cell list list"
  wind :: "int \<times> int"
  active_fires :: "(int \<times> int) list"

type_synonym rng = "real stream"

text \<open>\<open>in_bounds\<close> is the guard \<open>x >= 0 && x < width && y >= 0 && y < height\<close>.\<close>

definition in_bounds :: "environment \<Rightarrow> int \<Rightarrow> int \<Rightarrow> bool" where
  "in_bounds env x y \<longleftrightarrow> x \<ge> 0 \<and> x < width env \<and> y \<ge> 0 \<and> y < height env"

text \<open>\<open>cell_at env x y\<close> is \<open>grid[y][x]\<close>; \<open>set_cell\<close> writes the fields of that cell
  object.  Both are used under \<open>in_bounds\<close> only, as in the source.\<close>

definition cell_at :: "environment \<Rightarrow> int \<Rightarrow> int \<Rightarrow> cell" where
  "cell_at env x y = grid env ! nat y ! nat x"

definition set_cell :: "environment \<Rightarrow> int \<Rightarrow> int \<Rightarrow> cell \<Rightarrow> environment" where
  "set_cell env x y c = env\<lparr>grid := (grid env)[nat y := (grid env ! nat y)[nat x := c]]\<rparr>"

fun fill_row :: "nat \<Rightarrow> rng \<Rightarrow> cell list \<times> rng" where
  "fill_row 0 r = ([], r)"
| "fill_row (Suc n) r =
     (let c = new_Cell (shd r * 100); (cs, r') = fill_row n (stl r) in (c # cs, r'))"

fun fill_grid :: "nat \<Rightarrow> nat \<Rightarrow> rng \<Rightarrow> cell list list \<times> rng" where
  "fill_grid w 0 r = ([], r)"
| "fill_grid w (Suc n) r =
     (let (row, r1) = fill_row w r; (rows, r2) = fill_grid w n r1 in (row # rows, r2))"

definition new_Environment :: "int \<Rightarrow> int \<Rightarrow> rng \<Rightarrow> environment \<times> rng" where
  "new_Environment w h r =
     (let (g, r') = fill_grid (nat w) (nat h) r
      in (\<lparr>width = w, height = h, grid = g, wind = (1, 0), active_fires = []\<rparr>, r'))"

subsection \<open>add_water_blobs\<close>

record walk_state =
  w_env :: environment
  w_x :: int
  w_y :: int
  w_rng :: rng

definition walk_step :: "walk_state \<Rightarrow> walk_state" where
  "walk_step s =
     (let env = w_env s; x = w_x s; y = w_y s; r = w_rng s;
          env' = (if in_bounds env x y
                  then set_cell env x y ((cell_at env x y)\<lparr>water := True, tree := False\<rparr>)
                  else env)
      in \<lparr>w_env = env', w_x = x + (\<lfloor>shd r * 3\<rfloor> - 1),
          w_y = y + (\<lfloor>shd (stl r) * 3\<rfloor> - 1), w_rng = stl (stl r)\<rparr>)"

definition water_blob :: "environment \<times> rng \<Rightarrow> environment \<times> rng" where
  "water_blob er =
     (let env = fst er; r = snd er;
          cx = \<lfloor>shd r * real_of_int (width env - 8)\<rfloor> + 4;
          cy = \<lfloor>shd (stl r) * real_of_int (height env - 8)\<rfloor> + 4;
          steps = \<lfloor>shd (stl (stl r)) * 15\<rfloor> + 15;
          s = (walk_step ^^ nat steps) \<lparr>w_env = env, w_x = cx, w_y = cy, w_rng = stl (stl (stl r))\<rparr>
      in (w_env s, w_rng s))"

definition add_water_blobs :: "environment \<Rightarrow> int \<Rightarrow> rng \<Rightarrow> environment \<times> rng" where
  "add_water_blobs env count r =
     (let num_blobs = \<lfloor>shd r * real_of_int (count - 1)\<rfloor> + 2
      in (water_blob ^^ nat num_blobs) (env, stl r))"

subsection \<open>ignite\<close>

definition eligible :: "cell \<Rightarrow> bool" where
  "eligible c \<longleftrightarrow> tree c \<and> \<not> fire c \<and> \<not> burnt c \<and> \<not> water c"

definition ignite :: "environment \<Rightarrow> int \<Rightarrow> int \<Rightarrow> environment" where
  "ignite env x y =
     (if in_bounds env x y then
        (let c = cell_at env x y in
         if eligible c
         then (set_cell env x y (c\<lparr>fire := True, fire_cooldown := 3\<rparr>))
                \<lparr>active_fires := active_fires env @ [(x, y)]\<rparr>
         else env)
      else env)"

subsection \<open>spread_fire\<close>

record spread_state =
  s_env :: environment
  new_fires :: "(int \<times> int) list"
  still_active :: "(int \<times> int) list"
  s_rng :: rng

text \<open>Lines 96 to 99: the probability against which the draw for one neighbour is compared.\<close>

definition spread_prob :: "environment \<Rightarrow> cell \<Rightarrow> cell \<Rightarrow> int \<Rightarrow> int \<Rightarrow> real" where
  "spread_prob env c ncell dx dy =
     (let elev_diff = elevation ncell - elevation c;
          base_prob = 0.05 + elev_diff * 0.003;
          base_prob = (if dx = fst (wind env) \<and> dy = snd (wind env)
                       then base_prob + 0.08 else base_prob)
      in min (max base_prob 0.005) 0.4)"

text \<open>The body of the two nested neighbour loops (lines 91 to 105) for the burning cell
  \<open>(x, y)\<close> and the offset \<open>(dx, dy)\<close>.\<close>

definition try_neighbor :: "int \<Rightarrow> int \<Rightarrow> int \<Rightarrow> int \<Rightarrow> spread_state \<Rightarrow> spread_state" where
  "try_neighbor x y dx dy s =
     (if dx = 0 \<and> dy = 0 then s
      else
        (let env = s_env s; nx = x + dx; ny = y + dy in
         if in_bounds env nx ny then
           (let ncell = cell_at env nx ny in
            if eligible ncell then
              (if shd (s_rng s) < spread_prob env (cell_at env x y) ncell dx dy
               then s\<lparr>s_env := set_cell env nx ny (ncell\<lparr>fire := True, fire_cooldown := 2\<rparr>),
                      new_fires := new_fires s @ [(nx, ny)],
                      s_rng := stl (s_rng s)\<rparr>
               else s\<lparr>s_rng := stl (s_rng s)\<rparr>)
            else s)
         else s))"

definition offsets :: "int list" where
  "offsets = [-1, 0, 1]"

definition spread_neighbors :: "int \<Rightarrow> int \<Rightarrow> spread_state \<Rightarrow> spread_state" where
  "spread_neighbors x y s = fold (\<lambda>dx. fold (\<lambda>dy. try_neighbor x y dx dy) offsets) offsets s"

text \<open>The body of the loop over \<open>active_fires\<close> (lines 78 to 110).\<close>

definition spread_cell :: "int \<times> int \<Rightarrow> spread_state \<Rightarrow> spread_state" where
  "spread_cell p s =
     (let x = fst p; y = snd p; env = s_env s; c = cell_at env x y;
          c1 = (if fire_cooldown c > 0 then c\<lparr>fire_cooldown := fire_cooldown c - 1\<rparr> else c);
          env1 = set_cell env x y c1;
          u = shd (s_rng s);
          s1 = s\<lparr>s_env := env1, s_rng := stl (s_rng s)\<rparr>
      in if u < 0.03
         then s1\<lparr>s_env := set_cell env1 x y
                    (c1\<lparr>fire := False, burnt := True, extinguished_by_drone := False\<rparr>)\<rparr>
         else
           (let s2 = (if fire_cooldown c1 = 0
                      then (let s' = spread_neighbors x y s1; env' = s_env s'
                            in s'\<lparr>s_env := set_cell env' x y
                                    ((cell_at env' x y)\<lparr>fire_cooldown := 2\<rparr>)\<rparr>)
                      else s1)
            in s2\<lparr>still_active := still_active s2 @ [(x, y)]\<rparr>))"

definition spread_fire :: "environment \<Rightarrow> rng \<Rightarrow> environment \<times> rng" where
  "spread_fire env r =
     (let s = fold spread_cell (active_fires env)
                \<lparr>s_env = env, new_fires = [], still_active = [], s_rng = r\<rparr>;
          env' = s_env s
      in (env'\<lparr>active_fires :=
                 filter (\<lambda>p. fire (cell_at env' (fst p) (snd p))) (still_active s) @ new_fires s\<rparr>,
          s_rng s))"

subsection \<open>extinguish_fire_at\<close>

text \<open>The clock \<open>simulation_time\<close> is a one-element array that the function updates in place;
  here it is passed in and returned.  \<open>None\<close> stands for the default \<open>null\<close>.\<close>

definition travel_time :: "int \<Rightarrow> int \<Rightarrow> int \<times> int \<Rightarrow> real" where
  "travel_time x y drone_pos =
     (let dx = real_of_int (x - fst drone_pos); dy = real_of_int (y - snd drone_pos);
          distance = sqrt (dx * dx + dy * dy) * CELL_SIZE
      in distance / DRONE_SPEED)"

definition extinguish_fire_at ::
  "environment \<Rightarrow> int \<Rightarrow> int \<Rightarrow> (int \<times> int) option \<Rightarrow> real option
     \<Rightarrow> bool \<times> environment \<times> real option" where
  "extinguish_fire_at env x y drone_pos simulation_time =
     (if in_bounds env x y \<and> fire (cell_at env x y) then
        (let c = cell_at env x y;
             t' = (case (simulation_time, drone_pos) of
                     (Some t, Some dp) \<Rightarrow> Some (t + (travel_time x y dp + EXTINGUISH_TIME))
                   | _ \<Rightarrow> simulation_time);
             env' = set_cell env x y
                      (c\<lparr>fire := False, burnt := True, tree := False, fire_cooldown := 0,
                         extinguished_by_drone := True\<rparr>)
         in (True,
             env'\<lparr>active_fires := filter (\<lambda>f. \<not> (fst f = x \<and> snd f = y)) (active_fires env)\<rparr>,
             t'))
      else (False, env, simulation_time))"

subsection \<open>get_attraction_matrix and count_trees\<close>

definition attraction :: "cell \<Rightarrow> int" where
  "attraction c = (if fire c then 5 else if burnt c then 4 else if water c then 3 else 0)"

definition get_attraction_matrix :: "environment \<Rightarrow> int list list" where
  "get_attraction_matrix env =
     map (\<lambda>y. map (\<lambda>x. attraction (cell_at env x y)) [0..width env - 1]) [0..height env - 1]"

definition count_cell :: "cell \<Rightarrow> int \<times> int \<Rightarrow> int \<times> int" where
  "count_cell c sb =
     (if tree c then (fst sb + 1, snd sb)
      else if burnt c then (fst sb, snd sb + 1) else sb)"

definition count_trees :: "environment \<Rightarrow> int \<times> int" where
  "count_trees env = fold (\<lambda>row. fold count_cell row) (grid env) (0, 0)"

subsection \<open>Fitness values\<close>

text \<open>A JavaScript number that may be \<open>Infinity\<close> (the start value of the two minimum
  searches in \<open>fitness\<close>, and \<open>Math.min()\<close> of no arguments).\<close>

datatype jsnum = Finite real | Infinity

fun js_less :: "jsnum \<Rightarrow> jsnum \<Rightarrow> bool" where
  "js_less (Finite a) (Finite b) = (a < b)"
| "js_less (Finite a) Infinity = True"
| "js_less Infinity b = False"

fun js_min :: "jsnum \<Rightarrow> jsnum \<Rightarrow> jsnum" where
  "js_min (Finite a) (Finite b) = Finite (min a b)"
| "js_min (Finite a) Infinity = Finite a"
| "js_min Infinity b = b"

fun js_add :: "jsnum \<Rightarrow> jsnum \<Rightarrow> jsnum" where
  "js_add (Finite a) (Finite b) = Finite (a + b)"
| "js_add a b = Infinity"

definition Math_min :: "jsnum list \<Rightarrow> jsnum" where
  "Math_min xs = fold (\<lambda>v m. js_min m v) xs Infinity"

fun indexOf :: "'a list \<Rightarrow> 'a \<Rightarrow> nat option" where
  "indexOf [] v = None"
| "indexOf (x # xs) v = (if x = v then Some 0 else map_option Suc (indexOf xs v))"

subsection \<open>DroneSwarm\<close>

text \<open>The swarm's reference \<open>this.env\<close> to the shared environment object is made explicit:
  every method takes the environment, and \<open>step\<close> returns the updated one.\<close>

record drone_swarm =
  num_drones :: nat
  positions :: "(real \<times> real) list"
  velocities :: "(real \<times> real) list"
  pbest_positions :: "(real \<times> real) list"
  pbest_values :: "jsnum list"
  gbest_position :: "real \<times> real"
  gbest_value :: jsnum
  water_left :: "int list"
  refill_timers :: "int list"
  omega :: real
  phi_p :: real
  phi_g :: real

definition positions_of_kind :: "int list list \<Rightarrow> environment \<Rightarrow> int \<Rightarrow> (int \<times> int) list" where
  "positions_of_kind matrix env k =
     concat (map (\<lambda>yy. concat (map (\<lambda>xx. if matrix ! nat yy ! nat xx = k then [(yy, xx)] else [])
                                  [0..width env - 1]))
                 [0..height env - 1])"

definition cell_dist :: "int \<Rightarrow> int \<Rightarrow> int \<times> int \<Rightarrow> real" where
  "cell_dist x y p = sqrt ((real_of_int (snd p - x))\<^sup>2 + (real_of_int (fst p - y))\<^sup>2)"

definition min_dist :: "int \<Rightarrow> int \<Rightarrow> (int \<times> int) list \<Rightarrow> jsnum" where
  "min_dist x y ps = fold (\<lambda>p m. js_min m (Finite (cell_dist x y p))) ps Infinity"

definition fitness :: "environment \<Rightarrow> real \<times> real \<Rightarrow> jsnum" where
  "fitness env pos =
     (let x = \<lfloor>fst pos\<rfloor>; y = \<lfloor>snd pos\<rfloor> in
      if x < 0 \<or> x \<ge> width env \<or> y < 0 \<or> y \<ge> height env then Finite 1000000
      else
        (let matrix = get_attraction_matrix env;
             cell_value = matrix ! nat y ! nat x;
             min_dist_water = min_dist x y (positions_of_kind matrix env 3)
         in if cell_value = 5 then js_add (Finite (-100)) min_dist_water
            else if cell_value = 3 then Finite (-10)
            else if cell_value = 4 then Finite 1000
            else (let fire_positions = positions_of_kind matrix env 5
                  in if fire_positions \<noteq> [] then min_dist x y fire_positions else Finite 100)))"

fun random_pairs :: "nat \<Rightarrow> (real \<Rightarrow> real) \<Rightarrow> (real \<Rightarrow> real) \<Rightarrow> rng \<Rightarrow> (real \<times> real) list \<times> rng" where
  "random_pairs 0 f g r = ([], r)"
| "random_pairs (Suc n) f g r =
     (let p = (f (shd r), g (shd (stl r))); (ps, r') = random_pairs n f g (stl (stl r))
      in (p # ps, r'))"

text \<open>The constructor.  With no drone, \<open>indexOf\<close> gives \<open>-1\<close> and spreading
  \<open>pbest_positions[-1]\<close> throws a TypeError: the result \<open>None\<close>.\<close>

definition new_DroneSwarm :: "environment \<Rightarrow> nat \<Rightarrow> rng \<Rightarrow> (drone_swarm \<times> rng) option" where
  "new_DroneSwarm env n r =
     (let (ps, r1) = random_pairs n (\<lambda>u. u * real_of_int (width env - 1))
                                   (\<lambda>u. u * real_of_int (height env - 1)) r;
          (vs, r2) = random_pairs n (\<lambda>u. (u - 0.5) * 3) (\<lambda>u. (u - 0.5) * 3) r1;
          vals = map (fitness env) ps
      in case indexOf vals (Math_min vals) of
           None \<Rightarrow> None
         | Some best_idx \<Rightarrow>
             Some (\<lparr>num_drones = n, positions = ps, velocities = vs, pbest_positions = ps,
                    pbest_values = vals, gbest_position = ps ! best_idx,
                    gbest_value = vals ! best_idx,
                    water_left = replicate n MAX_WATER_CAPACITY,
                    refill_timers = replicate n 0,
                    omega = 0.7, phi_p = 1.5, phi_g = 1.5\<rparr>, r2))"

subsection \<open>DroneSwarm.step\<close>

text \<open>First loop (lines 234 to 253): velocity and position update of drone \<open>i\<close>.\<close>

definition move_drone :: "environment \<Rightarrow> nat \<Rightarrow> drone_swarm \<times> rng \<Rightarrow> drone_swarm \<times> rng" where
  "move_drone env i sr =
     (let sw = fst sr; r = snd sr;
          r_p = shd r; r_g = shd (stl r);
          v = velocities sw ! i; p = positions sw ! i; b = pbest_positions sw ! i;
          g = gbest_position sw;
          vx = omega sw * fst v + phi_p sw * r_p * (fst b - fst p) + phi_g sw * r_g * (fst g - fst p);
          vy = omega sw * snd v + phi_p sw * r_p * (snd b - snd p) + phi_g sw * r_g * (snd g - snd p);
          px = max 0 (min (real_of_int (width env - 1)) (fst p + vx));
          py = max 0 (min (real_of_int (height env - 1)) (snd p + vy))
      in (sw\<lparr>velocities := (velocities sw)[i := (vx, vy)],
              positions := (positions sw)[i := (px, py)]\<rparr>, stl (stl r)))"

text \<open>Second loop (lines 255 to 265): personal and global best of drone \<open>i\<close>.\<close>

definition update_best :: "environment \<Rightarrow> nat \<Rightarrow> drone_swarm \<Rightarrow> drone_swarm" where
  "update_best env i sw =
     (let f = fitness env (positions sw ! i) in
      if js_less f (pbest_values sw ! i) then
        (let sw1 = sw\<lparr>pbest_positions := (pbest_positions sw)[i := positions sw ! i],
                      pbest_values := (pbest_values sw)[i := f]\<rparr>
         in if js_less f (gbest_value sw)
            then sw1\<lparr>gbest_position := positions sw ! i, gbest_value := f\<rparr>
            else sw1)
      else sw)"

text \<open>Third loop (lines 267 to 299).  The field \<open>ext_calls\<close> is not in the source: it records,
  in order, every call of \<open>extinguish_fire_at\<close> made by the pass (the drone, the target, the
  position passed as \<open>drone_pos\<close> and the result), so that what is passed can be stated.\<close>

record ext_call =
  c_drone :: nat
  c_target :: "int \<times> int"
  c_drone_pos :: "int \<times> int"
  c_result :: bool

record supp_state =
  p_env :: environment
  p_swarm :: drone_swarm
  p_clock :: "real option"
  extinguished_count :: int
  extinguished_local :: int
  ext_calls :: "ext_call list"

definition scan_cell :: "nat \<Rightarrow> int \<Rightarrow> int \<Rightarrow> int \<Rightarrow> int \<Rightarrow> supp_state \<Rightarrow> supp_state" where
  "scan_cell i x y dx dy s =
     (let nx = x + dx; ny = y + dy;
          (ok, env', t') = extinguish_fire_at (p_env s) nx ny (Some (x, y)) (p_clock s);
          s1 = s\<lparr>p_env := env', p_clock := t',
                 ext_calls := ext_calls s @
                   [\<lparr>c_drone = i, c_target = (nx, ny), c_drone_pos = (x, y), c_result = ok\<rparr>]\<rparr>
      in if ok then
           s1\<lparr>extinguished_count := extinguished_count s + 1,
              extinguished_local := extinguished_local s + 1,
              p_swarm := (p_swarm s)\<lparr>water_left :=
                 (water_left (p_swarm s))[i := water_left (p_swarm s) ! i - 1]\<rparr>\<rparr>
         else s1)"

text \<open>The inner loop over \<open>dy\<close>; the \<open>break\<close> leaves this loop only.\<close>

fun scan_row :: "nat \<Rightarrow> int \<Rightarrow> int \<Rightarrow> int \<Rightarrow> int list \<Rightarrow> supp_state \<Rightarrow> supp_state" where
  "scan_row i x y dx [] s = s"
| "scan_row i x y dx (dy # dys) s =
     (if extinguished_local s \<ge> 3 \<or> water_left (p_swarm s) ! i \<le> 0 then s
      else scan_row i x y dx dys (scan_cell i x y dx dy s))"

definition scan_neighborhood :: "nat \<Rightarrow> int \<Rightarrow> int \<Rightarrow> supp_state \<Rightarrow> supp_state" where
  "scan_neighborhood i x y s =
     fold (\<lambda>dx. scan_row i x y dx offsets) offsets (s\<lparr>extinguished_local := 0\<rparr>)"

definition suppress_drone :: "nat \<Rightarrow> supp_state \<Rightarrow> supp_state" where
  "suppress_drone i s =
     (let env = p_env s; sw = p_swarm s;
          x = \<lfloor>fst (positions sw ! i)\<rfloor>; y = \<lfloor>snd (positions sw ! i)\<rfloor> in
      if x < 0 \<or> x \<ge> width env \<or> y < 0 \<or> y \<ge> height env then s
      else if water_left sw ! i = 0 then
        (if water (cell_at env x y) then
           (let t = refill_timers sw ! i + 1 in
            if t \<ge> REFILL_TIME
            then s\<lparr>p_swarm := sw\<lparr>water_left := (water_left sw)[i := MAX_WATER_CAPACITY],
                                  refill_timers := (refill_timers sw)[i := 0]\<rparr>\<rparr>
            else s\<lparr>p_swarm := sw\<lparr>refill_timers := (refill_timers sw)[i := t]\<rparr>\<rparr>)
         else s)
      else scan_neighborhood i x y s)"

record step_result =
  r_env :: environment
  r_swarm :: drone_swarm
  r_clock :: "real option"
  r_rng :: rng
  r_extinguished :: int
  r_calls :: "ext_call list"

definition move_pass :: "environment \<Rightarrow> drone_swarm \<Rightarrow> rng \<Rightarrow> drone_swarm \<times> rng" where
  "move_pass env sw r = fold (move_drone env) [0..<num_drones sw] (sw, r)"

definition best_pass :: "environment \<Rightarrow> drone_swarm \<Rightarrow> drone_swarm" where
  "best_pass env sw = fold (update_best env) [0..<num_drones sw] sw"

definition suppress_pass :: "environment \<Rightarrow> drone_swarm \<Rightarrow> real option \<Rightarrow> supp_state" where
  "suppress_pass env sw t =
     fold suppress_drone [0..<num_drones sw]
       \<lparr>p_env = env, p_swarm = sw, p_clock = t, extinguished_count = 0,
        extinguished_local = 0, ext_calls = []\<rparr>"

text \<open>\<open>step(iteration, simulation_time)\<close>; the parameter \<open>iteration\<close> is never read and is
  left out.  The first component of the returned array is \<open>r_extinguished\<close>.\<close>

definition step :: "environment \<Rightarrow> drone_swarm \<Rightarrow> real option \<Rightarrow> rng \<Rightarrow> step_result" where
  "step env sw simulation_time r =
     (let (sw1, r1) = move_pass env sw r;
          sw2 = best_pass env sw1;
          s = suppress_pass env sw2 simulation_time
      in \<lparr>r_env = p_env s, r_swarm = p_swarm s, r_clock = p_clock s, r_rng = r1,
          r_extinguished = extinguished_count s, r_calls = ext_calls s\<rparr>)"

subsection \<open>The tick: initSim and step_sim\<close>

record sim_state =
  envRef :: environment
  simRef :: "drone_swarm option"
  stepCount :: int
  simTime :: real
  totalExtinguished :: int

fun initial_fires :: "nat \<Rightarrow> environment \<times> rng \<Rightarrow> environment \<times> rng" where
  "initial_fires 0 er = er"
| "initial_fires (Suc n) er =
     (let env = fst er; r = snd er;
          x = \<lfloor>shd r * (real_of_int (width env) / 3)\<rfloor> + \<lfloor>real_of_int (width env) / 3\<rfloor>;
          y = \<lfloor>shd (stl r) * (real_of_int (height env) / 3)\<rfloor> + \<lfloor>real_of_int (height env) / 3\<rfloor>
      in initial_fires n (ignite env x y, stl (stl r)))"

definition initSim :: "rng \<Rightarrow> sim_state \<times> rng" where
  "initSim r =
     (let (env0, r0) = new_Environment 40 20 r;
          (env1, r1) = add_water_blobs env0 3 r0;
          (env2, r2) = initial_fires 5 (env1, r1)
      in (\<lparr>envRef = env2, simRef = None, stepCount = 0, simTime = 0, totalExtinguished = 0\<rparr>, r2))"

text \<open>The random re-ignition at the end of a tick (lines 406 to 410); the draw is made only
  on a tick whose number is a multiple of 15.\<close>

definition reignite :: "int \<Rightarrow> environment \<Rightarrow> rng \<Rightarrow> environment \<times> rng" where
  "reignite n env r =
     (if n mod 15 = 0 then
        (if shd r < 0.3 then
           (let x = \<lfloor>shd (stl r) * real_of_int (width env)\<rfloor>;
                y = \<lfloor>shd (stl (stl r)) * real_of_int (height env)\<rfloor>
            in (ignite env x y, stl (stl (stl r))))
         else (env, stl r))
      else (env, r))"

text \<open>One tick.  \<open>om\<close>, \<open>pp\<close> and \<open>pg\<close> are the values of the three sliders.  The result is
  \<open>None\<close> where the constructor of the swarm throws.\<close>

definition step_sim :: "real \<Rightarrow> real \<Rightarrow> real \<Rightarrow> sim_state \<Rightarrow> rng \<Rightarrow> (sim_state \<times> rng) option" where
  "step_sim om pp pg st r =
     (let (env1, r1) = spread_fire (envRef st) r;
          created = (if stepCount st = 10
                     then map_option (\<lambda>(sw, r'). (Some sw, 0, r')) (new_DroneSwarm env1 20 r1)
                     else Some (simRef st, simTime st, r1))
      in case created of
           None \<Rightarrow> None
         | Some (sim, t, r2) \<Rightarrow>
             (let (env2, sim', t', tot, r3) =
                    (case sim of
                       None \<Rightarrow> (env1, None, t, totalExtinguished st, r2)
                     | Some sw \<Rightarrow>
                         (let res = step env1 (sw\<lparr>omega := om, phi_p := pp, phi_g := pg\<rparr>) (Some t) r2
                          in (r_env res, Some (r_swarm res),
                              (case r_clock res of Some v \<Rightarrow> v | None \<Rightarrow> t),
                              totalExtinguished st + r_extinguished res, r_rng res)));
                  (env3, r4) = reignite (stepCount st) env2 r3
              in Some (\<lparr>envRef = env3, simRef = sim', stepCount = stepCount st + 1,
                        simTime = t', totalExtinguished = tot\<rparr>, r4)))"

section \<open>Specification predicates\<close>

definition wf_env :: "environment \<Rightarrow> bool" where
  "wf_env env \<longleftrightarrow> length (grid env) = nat (height env) \<and>
     (\<forall>row \<in> set (grid env). length row = nat (width env))"

definition burning :: "environment \<Rightarrow> (int \<times> int) set" where
  "burning env = {(x, y). in_bounds env x y \<and> fire (cell_at env x y)}"

definition water_ok :: "environment \<Rightarrow> bool" where
  "water_ok env \<longleftrightarrow> (\<forall>x y. in_bounds env x y \<and> water (cell_at env x y) \<longrightarrow>
      \<not> tree (cell_at env x y) \<and> \<not> fire (cell_at env x y) \<and> \<not> burnt (cell_at env x y))"

definition tracked :: "environment \<Rightarrow> (int \<times> int) list \<Rightarrow> bool" where
  "tracked env xs \<longleftrightarrow> wf_env env \<and> distinct xs \<and> set xs = burning env \<and> water_ok env"

definition env_inv :: "environment \<Rightarrow> bool" where
  "env_inv env \<longleftrightarrow> tracked env (active_fires env)"

definition keeps :: "(cell \<Rightarrow> 'a) \<Rightarrow> environment \<Rightarrow> environment \<Rightarrow> bool" where
  "keeps f env env' \<longleftrightarrow> width env' = width env \<and> height env' = height env \<and>
     wind env' = wind env \<and>
     (\<forall>x y. in_bounds env x y \<longrightarrow> f (cell_at env' x y) = f (cell_at env x y))"

definition motion :: "drone_swarm \<Rightarrow>
    nat \<times> (real \<times> real) list \<times> (real \<times> real) list \<times> (real \<times> real) list \<times> jsnum list \<times>
    (real \<times> real) \<times> jsnum \<times> real \<times> real \<times> real" where
  "motion sw = (num_drones sw, positions sw, velocities sw, pbest_positions sw, pbest_values sw,
     gbest_position sw, gbest_value sw, omega sw, phi_p sw, phi_g sw)"

definition floor_pos :: "real \<times> real \<Rightarrow> int \<times> int" where
  "floor_pos p = (\<lfloor>fst p\<rfloor>, \<lfloor>snd p\<rfloor>)"

definition env_1x2 :: "real \<Rightarrow> real \<Rightarrow> environment" where
  "env_1x2 e0 e1 = \<lparr>width = 2, height = 1,
     grid = [[(new_Cell e0)\<lparr>fire := True\<rparr>, new_Cell e1]],
     wind = (1, 0), active_fires = [(0, 0)]\<rparr>"

definition unlit :: "cell \<Rightarrow> bool" where
  "unlit c \<longleftrightarrow> \<not> fire c \<and> \<not> burnt c \<and> (water c \<longrightarrow> \<not> tree c)"

definition fresh :: "environment \<Rightarrow> bool" where
  "fresh env \<longleftrightarrow> wf_env env \<and> active_fires env = [] \<and>
     (\<forall>x y. in_bounds env x y \<longrightarrow> unlit (cell_at env x y))"

text \<open>The number of grid cells that are burning.\<close>

definition count_burning :: "environment \<Rightarrow> nat" where
  "count_burning env =
     length (filter (\<lambda>p. fire (cell_at env (fst p) (snd p)))
               (List.product [0..width env - 1] [0..height env - 1]))"

definition fire_consistent :: "environment \<Rightarrow> bool" where
  "fire_consistent env \<longleftrightarrow>
     distinct (active_fires env) \<and> length (active_fires env) = count_burning env"

definition water_only :: "environment \<Rightarrow> int \<Rightarrow> int \<Rightarrow> bool" where
  "water_only env x y \<longleftrightarrow> in_bounds env x y \<and> water (cell_at env x y) \<and>
     \<not> fire (cell_at env x y) \<and> \<not> tree (cell_at env x y) \<and> \<not> burnt (cell_at env x y)"

definition wet :: "int \<Rightarrow> int \<Rightarrow> environment \<Rightarrow> bool" where
  "wet x y env \<longleftrightarrow> wf_env env \<and> in_bounds env x y \<and> water (cell_at env x y)"

definition pond :: environment where
  "pond = fst (add_water_blobs (fst (new_Environment 1 1 (sconst 0))) 3 (sconst (4 / 7)))"

definition pos_ok :: "environment \<Rightarrow> real \<times> real \<Rightarrow> bool" where
  "pos_ok env p \<longleftrightarrow> 0 \<le> fst p \<and> fst p \<le> real_of_int (width env - 1) \<and>
     0 \<le> snd p \<and> snd p \<le> real_of_int (height env - 1)"

text \<open>A grid of one row and three cells with a fire on the right, and a swarm of one drone
  on the left that flies two cells to the right in its next step.\<close>

definition env_1x3 :: environment where
  "env_1x3 = \<lparr>width = 3, height = 1,
     grid = [[new_Cell 0, new_Cell 0, (new_Cell 0)\<lparr>fire := True\<rparr>]],
     wind = (1, 0), active_fires = [(2, 0)]\<rparr>"

definition one_drone :: drone_swarm where
  "one_drone = \<lparr>num_drones = 1, positions = [(0, 0)], velocities = [(2, 0)],
     pbest_positions = [(0, 0)], pbest_values = [Finite 0], gbest_position = (0, 0),
     gbest_value = Finite 0, water_left = [3], refill_timers = [0],
     omega = 1, phi_p = 1.5, phi_g = 1.5\<rparr>"

definition call_from :: "int \<times> int \<Rightarrow> int \<times> int \<Rightarrow> bool \<Rightarrow> ext_call" where
  "call_from p q ok = \<lparr>c_drone = 0, c_target = q, c_drone_pos = p, c_result = ok\<rparr>"

text \<open>The number of successful suppressions of drone \<open>i\<close> among the recorded calls.\<close>

definition successes :: "nat \<Rightarrow> ext_call list \<Rightarrow> int" where
  "successes i cs = int (length (filter (\<lambda>c. c_drone c = i \<and> c_result c) cs))"

definition drone_ok :: "drone_swarm \<Rightarrow> nat \<Rightarrow> bool" where
  "drone_ok sw i \<longleftrightarrow>
     0 \<le> water_left sw ! i \<and> water_left sw ! i \<le> MAX_WATER_CAPACITY \<and>
     0 \<le> refill_timers sw ! i \<and> refill_timers sw ! i < REFILL_TIME \<and>
     (0 < water_left sw ! i \<longrightarrow> refill_timers sw ! i = 0)"

definition water_inv :: "drone_swarm \<Rightarrow> bool" where
  "water_inv sw \<longleftrightarrow> length (water_left sw) = num_drones sw \<and>
     length (refill_timers sw) = num_drones sw \<and> (\<forall>i < num_drones sw. drone_ok sw i)"

definition scan_ok :: "nat \<Rightarrow> supp_state \<Rightarrow> supp_state \<Rightarrow> bool" where
  "scan_ok i s s' \<longleftrightarrow>
     refill_timers (p_swarm s') = refill_timers (p_swarm s) \<and>
     length (water_left (p_swarm s')) = length (water_left (p_swarm s)) \<and>
     (\<forall>j. j \<noteq> i \<longrightarrow> water_left (p_swarm s') ! j = water_left (p_swarm s) ! j \<and>
                      successes j (ext_calls s') = successes j (ext_calls s)) \<and>
     water_left (p_swarm s') ! i =
       water_left (p_swarm s) ! i - (successes i (ext_calls s') - successes i (ext_calls s)) \<and>
     successes i (ext_calls s) \<le> successes i (ext_calls s') \<and>
     (0 \<le> water_left (p_swarm s) ! i \<longrightarrow> 0 \<le> water_left (p_swarm s') ! i) \<and>
     wf_env (p_env s') \<and> keeps water (p_env s) (p_env s') \<and>
     motion (p_swarm s') = motion (p_swarm s)"

text \<open>What the suppression pass does to the water \<open>w'\<close> and the refill timer \<open>tm'\<close> of
  drone \<open>i\<close>, with \<open>k\<close> its number of successful suppressions, for the swarm \<open>sw\<close> that
  enters the pass on a grid with the water cells of \<open>env\<close>.\<close>

definition water_outcome ::
  "environment \<Rightarrow> drone_swarm \<Rightarrow> nat \<Rightarrow> int \<Rightarrow> int \<Rightarrow> int \<Rightarrow> bool" where
  "water_outcome env sw i w' tm' k \<longleftrightarrow>
     (let w = water_left sw ! i; tm = refill_timers sw ! i;
          x = \<lfloor>fst (positions sw ! i)\<rfloor>; y = \<lfloor>snd (positions sw ! i)\<rfloor>;
          on_water = (in_bounds env x y \<and> water (cell_at env x y))
      in (0 < w \<longrightarrow> w' = w - k \<and> 0 \<le> k \<and> tm' = tm) \<and>
         (w = 0 \<longrightarrow> k = 0) \<and>
         (w = 0 \<and> on_water \<and> tm + 1 = REFILL_TIME \<longrightarrow> w' = MAX_WATER_CAPACITY \<and> tm' = 0) \<and>
         (w = 0 \<and> on_water \<and> tm + 1 < REFILL_TIME \<longrightarrow> w' = 0 \<and> tm' = tm + 1) \<and>
         (w = 0 \<and> \<not> on_water \<longrightarrow> w' = 0 \<and> tm' = tm) \<and>
         0 \<le> w' \<and> w' \<le> MAX_WATER_CAPACITY \<and> 0 \<le> tm' \<and> tm' < REFILL_TIME \<and>
         (0 < w' \<longrightarrow> tm' = 0))"

definition pass_ok :: "environment \<Rightarrow> drone_swarm \<Rightarrow> nat set \<Rightarrow> supp_state \<Rightarrow> bool" where
  "pass_ok env0 sw0 D s \<longleftrightarrow>
     length (water_left (p_swarm s)) = length (water_left sw0) \<and>
     length (refill_timers (p_swarm s)) = length (refill_timers sw0) \<and>
     motion (p_swarm s) = motion sw0 \<and> wf_env (p_env s) \<and> keeps water env0 (p_env s) \<and>
     (\<forall>i \<in> D. water_outcome env0 sw0 i (water_left (p_swarm s) ! i)
                  (refill_timers (p_swarm s) ! i) (successes i (ext_calls s))) \<and>
     (\<forall>i. i \<notin> D \<longrightarrow> water_left (p_swarm s) ! i = water_left sw0 ! i \<and>
                      refill_timers (p_swarm s) ! i = refill_timers sw0 ! i \<and>
                      successes i (ext_calls s) = 0)"

definition others_kept :: "nat \<Rightarrow> supp_state \<Rightarrow> supp_state \<Rightarrow> bool" where
  "others_kept j s s' \<longleftrightarrow>
     length (water_left (p_swarm s')) = length (water_left (p_swarm s)) \<and>
     length (refill_timers (p_swarm s')) = length (refill_timers (p_swarm s)) \<and>
     motion (p_swarm s') = motion (p_swarm s) \<and> wf_env (p_env s') \<and>
     keeps water (p_env s) (p_env s') \<and>
     (\<forall>i. i \<noteq> j \<longrightarrow> water_left (p_swarm s') ! i = water_left (p_swarm s) ! i \<and>
                      refill_timers (p_swarm s') ! i = refill_timers (p_swarm s) ! i \<and>
                      successes i (ext_calls s') = successes i (ext_calls s))"

definition faded :: "environment \<Rightarrow> environment \<Rightarrow> bool" where
  "faded env0 env' \<longleftrightarrow> (\<forall>x y. in_bounds env0 x y \<and> fire (cell_at env0 x y) \<and>
       \<not> fire (cell_at env' x y)
     \<longrightarrow> burnt (cell_at env' x y) \<and> \<not> extinguished_by_drone (cell_at env' x y))"

definition spread_ok :: "environment \<Rightarrow> (int \<times> int) list \<Rightarrow> spread_state \<Rightarrow> bool" where
  "spread_ok env0 todo s \<longleftrightarrow> tracked (s_env s) (todo @ still_active s @ new_fires s) \<and>
     keeps water env0 (s_env s) \<and> keeps tree env0 (s_env s) \<and> faded env0 (s_env s)"

definition cool :: "cell \<Rightarrow> cell" where
  "cool c = (if fire_cooldown c > 0 then c\<lparr>fire_cooldown := fire_cooldown c - 1\<rparr> else c)"

text \<open>Environment invariants through the pass.\<close>

definition supp_env_ok :: "environment \<Rightarrow> supp_state \<Rightarrow> bool" where
  "supp_env_ok env0 s \<longleftrightarrow> env_inv (p_env s) \<and> keeps water env0 (p_env s)"

text \<open>The pass writes \<open>water_left\<close> and \<open>refill_timers\<close> only, and passes the floored
  position of the drone.\<close>

definition supp_calls_ok :: "drone_swarm \<Rightarrow> supp_state \<Rightarrow> bool" where
  "supp_calls_ok sw0 s \<longleftrightarrow> motion (p_swarm s) = motion sw0 \<and>
     (\<forall>c \<in> set (ext_calls s). c_drone_pos c = floor_pos (positions sw0 ! c_drone c))"

definition not_worse :: "jsnum \<Rightarrow> jsnum \<Rightarrow> bool" where
  "not_worse new old \<longleftrightarrow> new = old \<or> js_less new old"

section \<open>Properties\<close>

text \<open>The environments the program can produce: the grid of the constructor with its water
  blobs, and from there any sequence of ignitions, fire advances, suppressions and swarm steps,
  with any random draws and any swarm.\<close>

inductive reachable_env :: "environment \<Rightarrow> bool" where
  init: "reachable_env (fst (add_water_blobs (fst (new_Environment w h r)) n r'))"
| ignited: "reachable_env env \<Longrightarrow> reachable_env (ignite env x y)"
| spread: "reachable_env env \<Longrightarrow> reachable_env (fst (spread_fire env r))"
| extinguished: "reachable_env env \<Longrightarrow> reachable_env (fst (snd (extinguish_fire_at env x y dp t)))"
| stepped: "reachable_env env \<Longrightarrow> reachable_env (r_env (step env sw t r))"

lemma set_cell_fields [simp]:
  "width (set_cell env x y c) = width env"
  "height (set_cell env x y c) = height env"
  "wind (set_cell env x y c) = wind env"
  "active_fires (set_cell env x y c) = active_fires env"
  by (simp_all add: set_cell_def)

lemma in_bounds_set_cell [simp]: "in_bounds (set_cell env x y c) x' y' = in_bounds env x' y'"
  by (simp add: in_bounds_def)

lemma in_bounds_active_fires_update [simp]:
  "in_bounds (env\<lparr>active_fires := fs\<rparr>) x y = in_bounds env x y"
  by (simp add: in_bounds_def)

lemma cell_at_active_fires_update [simp]:
  "cell_at (env\<lparr>active_fires := fs\<rparr>) x y = cell_at env x y"
  by (simp add: cell_at_def)

lemma wf_env_active_fires_update [simp]: "wf_env (env\<lparr>active_fires := fs\<rparr>) = wf_env env"
  by (simp add: wf_env_def)

lemma wf_env_rowD: "wf_env env \<Longrightarrow> in_bounds env x y \<Longrightarrow> nat y < length (grid env)"
  by (simp add: wf_env_def in_bounds_def)

lemma wf_env_colD: "wf_env env \<Longrightarrow> in_bounds env x y \<Longrightarrow> nat x < length (grid env ! nat y)"
proof -
  assume a: "wf_env env" "in_bounds env x y"
  then have "nat y < length (grid env)" by (rule wf_env_rowD)
  then have "grid env ! nat y \<in> set (grid env)" by simp
  with a(1) have "length (grid env ! nat y) = nat (width env)" by (simp add: wf_env_def)
  with a(2) show ?thesis by (simp add: in_bounds_def)
qed

lemma wf_env_set_cell [simp]: "wf_env (set_cell env x y c) = wf_env env"
proof -
  let ?g = "(grid env)[nat y := (grid env ! nat y)[nat x := c]]"
  have "map length ?g = map length (grid env)"
  proof (cases "nat y < length (grid env)")
    case True
    then have "(map length (grid env))[nat y := map length (grid env) ! nat y] = map length (grid env)"
      by (simp only: list_update_id)
    with True show ?thesis by (simp add: map_update)
  next
    case False
    then have "length (grid env) \<le> nat y" by simp
    then show ?thesis by (simp only: list_update_beyond)
  qed
  then have "set (map length ?g) = set (map length (grid env))" by (rule arg_cong)
  then have im: "length ` set ?g = length ` set (grid env)" by (simp only: set_map)
  have "(\<forall>row \<in> set ?g. length row = nat (width env))
      \<longleftrightarrow> (\<forall>n \<in> length ` set ?g. n = nat (width env))" by blast
  also have "\<dots> \<longleftrightarrow> (\<forall>n \<in> length ` set (grid env). n = nat (width env))" by (simp only: im)
  also have "\<dots> \<longleftrightarrow> (\<forall>row \<in> set (grid env). length row = nat (width env))" by blast
  finally have "(\<forall>row \<in> set ?g. length row = nat (width env))
      \<longleftrightarrow> (\<forall>row \<in> set (grid env). length row = nat (width env))" .
  then show ?thesis by (simp add: wf_env_def set_cell_def)
qed

lemma cell_at_set_cell:
  assumes "wf_env env" "in_bounds env x y" "in_bounds env x' y'"
  shows "cell_at (set_cell env x y c) x' y' = (if x' = x \<and> y' = y then c else cell_at env x' y')"
proof -
  have ly: "nat y < length (grid env)" using assms(1,2) by (rule wf_env_rowD)
  have lx: "nat x < length (grid env ! nat y)" using assms(1,2) by (rule wf_env_colD)
  have "nat x' = nat x \<longleftrightarrow> x' = x"
    using assms(2,3) by (intro eq_nat_nat_iff) (simp_all add: in_bounds_def)
  then have ex: "nat x = nat x' \<longleftrightarrow> x' = x" by metis
  have ey: "nat y' = nat y \<longleftrightarrow> y' = y"
    using assms(2,3) by (intro eq_nat_nat_iff) (simp_all add: in_bounds_def)
  show ?thesis
  proof (cases "y' = y")
    case True
    then show ?thesis using ly lx ex
      by (simp add: cell_at_def set_cell_def nth_list_update)
  next
    case False
    then have "nat y' \<noteq> nat y" using ey by simp
    then show ?thesis using False
      by (simp add: cell_at_def set_cell_def)
  qed
qed

lemma burning_set_cell:
  assumes "wf_env env" "in_bounds env x y"
  shows "burning (set_cell env x y c) =
         (if fire c then insert (x, y) (burning env) else burning env - {(x, y)})"
  using assms by (auto simp: burning_def cell_at_set_cell split: if_splits)

lemma burning_active_fires_update [simp]: "burning (env\<lparr>active_fires := fs\<rparr>) = burning env"
  by (simp add: burning_def)

lemma water_ok_active_fires_update [simp]: "water_ok (env\<lparr>active_fires := fs\<rparr>) = water_ok env"
  by (simp add: water_ok_def)

lemma water_ok_set_cell:
  assumes "wf_env env" "in_bounds env x y" "water_ok env"
    and "water c \<longrightarrow> \<not> tree c \<and> \<not> fire c \<and> \<not> burnt c"
  shows "water_ok (set_cell env x y c)"
  unfolding water_ok_def
proof (intro allI impI)
  fix xa ya
  assume a: "in_bounds (set_cell env x y c) xa ya \<and> water (cell_at (set_cell env x y c) xa ya)"
  then have ib: "in_bounds env xa ya" by simp
  let ?c' = "cell_at (set_cell env x y c) xa ya"
  show "\<not> tree ?c' \<and> \<not> fire ?c' \<and> \<not> burnt ?c'"
  proof (cases "xa = x \<and> ya = y")
    case True
    with assms(1,2) ib have "?c' = c" by (simp add: cell_at_set_cell)
    with a assms(4) show ?thesis by simp
  next
    case False
    with assms(1,2) ib have "?c' = cell_at env xa ya" by (auto simp: cell_at_set_cell)
    with a ib assms(3) show ?thesis by (simp add: water_ok_def)
  qed
qed

subsection \<open>Frame conditions\<close>

lemma keeps_refl [simp]: "keeps f env env"
  by (simp add: keeps_def)

lemma keeps_in_bounds: "keeps f env env' \<Longrightarrow> in_bounds env' x y = in_bounds env x y"
  by (simp add: keeps_def in_bounds_def)

lemma keeps_trans: "keeps f env env1 \<Longrightarrow> keeps f env1 env2 \<Longrightarrow> keeps f env env2"
  unfolding keeps_def in_bounds_def by simp

lemma keeps_set_cell:
  assumes "wf_env env" "in_bounds env x y" "f c = f (cell_at env x y)"
  shows "keeps f env (set_cell env x y c)"
  unfolding keeps_def using assms by (simp add: cell_at_set_cell)

lemma keeps_active_fires_update [simp]:
  "keeps f env (env'\<lparr>active_fires := fs\<rparr>) = keeps f env env'"
  by (simp add: keeps_def)

lemma keeps_cell: "keeps f env env' \<Longrightarrow> in_bounds env x y \<Longrightarrow> f (cell_at env' x y) = f (cell_at env x y)"
  by (simp add: keeps_def)

subsection \<open>The tracked list under single cell updates\<close>

lemma tracked_wf: "tracked env xs \<Longrightarrow> wf_env env"
  by (simp add: tracked_def)

lemma tracked_burning: "tracked env xs \<Longrightarrow> p \<in> set xs \<Longrightarrow> in_bounds env (fst p) (snd p) \<and> fire (cell_at env (fst p) (snd p))"
  by (auto simp: tracked_def burning_def)

lemma tracked_not_water:
  assumes "tracked env xs" "in_bounds env x y" "fire (cell_at env x y)"
  shows "\<not> water (cell_at env x y)"
  using assms unfolding tracked_def water_ok_def by blast

lemma tracked_add:
  assumes "tracked env xs" "in_bounds env nx ny" "\<not> fire (cell_at env nx ny)"
    and "fire c" "\<not> water c"
  shows "tracked (set_cell env nx ny c) (xs @ [(nx, ny)])"
proof -
  from assms(1) have wf: "wf_env env" and d: "distinct xs" and b: "set xs = burning env"
    and w: "water_ok env" by (simp_all add: tracked_def)
  from assms(2,3) b have "(nx, ny) \<notin> set xs" by (simp add: burning_def)
  moreover have "burning (set_cell env nx ny c) = insert (nx, ny) (burning env)"
    using wf assms(2,4) by (simp add: burning_set_cell)
  moreover have "water_ok (set_cell env nx ny c)"
    using wf assms(2) w assms(5) by (intro water_ok_set_cell) simp_all
  ultimately show ?thesis using wf d b by (simp add: tracked_def)
qed

lemma tracked_remove:
  assumes "tracked env xs" "in_bounds env x y" "\<not> fire c" "\<not> water c"
  shows "tracked (set_cell env x y c) (filter (\<lambda>f. \<not> (fst f = x \<and> snd f = y)) xs)"
proof -
  from assms(1) have wf: "wf_env env" and d: "distinct xs" and b: "set xs = burning env"
    and w: "water_ok env" by (simp_all add: tracked_def)
  have "burning (set_cell env x y c) = burning env - {(x, y)}"
    using wf assms(2,3) by (simp add: burning_set_cell)
  moreover have "set (filter (\<lambda>f. \<not> (fst f = x \<and> snd f = y)) xs) = set xs - {(x, y)}"
    by auto
  moreover have "water_ok (set_cell env x y c)"
    using wf assms(2) w assms(4) by (intro water_ok_set_cell) simp_all
  ultimately show ?thesis using wf d b by (simp add: tracked_def)
qed

lemma tracked_same:
  assumes "tracked env xs" "in_bounds env x y" "fire c = fire (cell_at env x y)"
    and "water c \<longrightarrow> \<not> tree c \<and> \<not> fire c \<and> \<not> burnt c"
  shows "tracked (set_cell env x y c) xs"
proof -
  from assms(1) have wf: "wf_env env" and d: "distinct xs" and b: "set xs = burning env"
    and w: "water_ok env" by (simp_all add: tracked_def)
  have "burning (set_cell env x y c) =
          (if fire c then insert (x, y) (burning env) else burning env - {(x, y)})"
    using wf assms(2) by (rule burning_set_cell)
  moreover have "(x, y) \<in> burning env \<longleftrightarrow> fire c"
    using assms(2,3) by (simp add: burning_def)
  ultimately have "burning (set_cell env x y c) = burning env" by auto
  moreover have "water_ok (set_cell env x y c)"
    using wf assms(2) w assms(4) by (rule water_ok_set_cell)
  ultimately show ?thesis using wf d b by (simp add: tracked_def)
qed

lemma tracked_active_fires_update [simp]:
  "tracked (env\<lparr>active_fires := fs\<rparr>) xs = tracked env xs"
  by (simp add: tracked_def)

subsection \<open>ignite\<close>

lemma ignite_env_inv:
  assumes "env_inv env"
  shows "env_inv (ignite env x y)"
proof (cases "in_bounds env x y \<and> eligible (cell_at env x y)")
  case True
  let ?c = "(cell_at env x y)\<lparr>fire := True, fire_cooldown := 3\<rparr>"
  have ig: "ignite env x y = (set_cell env x y ?c)\<lparr>active_fires := active_fires env @ [(x, y)]\<rparr>"
    using True by (simp add: ignite_def Let_def)
  have "tracked (set_cell env x y ?c) (active_fires env @ [(x, y)])"
    using assms True by (intro tracked_add) (simp_all add: env_inv_def eligible_def)
  then show ?thesis by (simp add: ig env_inv_def)
next
  case False
  then have "ignite env x y = env" by (auto simp: ignite_def Let_def)
  with assms show ?thesis by simp
qed

lemma ignite_keeps_water:
  assumes "wf_env env"
  shows "keeps water env (ignite env x y)"
proof (cases "in_bounds env x y \<and> eligible (cell_at env x y)")
  case True
  let ?c = "(cell_at env x y)\<lparr>fire := True, fire_cooldown := 3\<rparr>"
  have ig: "ignite env x y = (set_cell env x y ?c)\<lparr>active_fires := active_fires env @ [(x, y)]\<rparr>"
    using True by (simp add: ignite_def Let_def)
  show ?thesis using assms True by (simp add: ig keeps_set_cell)
next
  case False
  then have "ignite env x y = env" by (auto simp: ignite_def Let_def)
  then show ?thesis by simp
qed

subsection \<open>extinguish_fire_at\<close>

lemma extinguish_env_inv:
  assumes "env_inv env"
  shows "env_inv (fst (snd (extinguish_fire_at env x y dp t)))"
proof (cases "in_bounds env x y \<and> fire (cell_at env x y)")
  case True
  let ?c = "(cell_at env x y)\<lparr>fire := False, burnt := True, tree := False, fire_cooldown := 0,
                         extinguished_by_drone := True\<rparr>"
  have nw: "\<not> water (cell_at env x y)"
    using assms True by (intro tracked_not_water[of env "active_fires env"]) (simp_all add: env_inv_def)
  have "tracked (set_cell env x y ?c) (filter (\<lambda>f. \<not> (fst f = x \<and> snd f = y)) (active_fires env))"
    using assms True nw by (intro tracked_remove) (simp_all add: env_inv_def)
  then show ?thesis using True by (simp add: extinguish_fire_at_def Let_def env_inv_def)
next
  case False
  then have "extinguish_fire_at env x y dp t = (False, env, t)"
    by (auto simp: extinguish_fire_at_def)
  with assms show ?thesis by simp
qed

lemma extinguish_keeps_water:
  assumes "wf_env env"
  shows "keeps water env (fst (snd (extinguish_fire_at env x y dp t)))"
proof (cases "in_bounds env x y \<and> fire (cell_at env x y)")
  case True
  then show ?thesis using assms by (simp add: extinguish_fire_at_def Let_def keeps_set_cell)
next
  case False
  then have "extinguish_fire_at env x y dp t = (False, env, t)"
    by (auto simp: extinguish_fire_at_def)
  then show ?thesis by simp
qed

subsection \<open>spread_fire\<close>

lemma fold_invariant:
  assumes "P s" and "\<And>x s. x \<in> set xs \<Longrightarrow> P s \<Longrightarrow> P (f x s)"
  shows "P (fold f xs s)"
  using assms by (induction xs arbitrary: s) simp_all

lemma tracked_perm:
  assumes "tracked env xs" "set ys = set xs" "distinct ys"
  shows "tracked env ys"
  using assms by (simp add: tracked_def)

lemma faded_refl [simp]: "faded env env"
  by (simp add: faded_def)

lemma faded_active_fires_update [simp]: "faded env0 (env'\<lparr>active_fires := fs\<rparr>) = faded env0 env'"
  by (simp add: faded_def)

lemma faded_set_cell:
  assumes "wf_env env'" "keeps f env0 env'" "in_bounds env' x y" "faded env0 env'"
    and "fire c \<or> (burnt c \<and> \<not> extinguished_by_drone c) \<or>
         (fire c = fire (cell_at env' x y) \<and> burnt c = burnt (cell_at env' x y) \<and>
          extinguished_by_drone c = extinguished_by_drone (cell_at env' x y))"
  shows "faded env0 (set_cell env' x y c)"
  unfolding faded_def
proof (intro allI impI)
  fix xa ya
  assume a: "in_bounds env0 xa ya \<and> fire (cell_at env0 xa ya) \<and>
             \<not> fire (cell_at (set_cell env' x y c) xa ya)"
  then have ib: "in_bounds env' xa ya" using keeps_in_bounds[OF assms(2)] by simp
  let ?c' = "cell_at (set_cell env' x y c) xa ya"
  show "burnt ?c' \<and> \<not> extinguished_by_drone ?c'"
  proof (cases "xa = x \<and> ya = y")
    case True
    with assms(1,3) ib have eq: "?c' = c" by (simp add: cell_at_set_cell)
    with a have nf: "\<not> fire c" by simp
    from assms(5) nf consider "burnt c \<and> \<not> extinguished_by_drone c"
      | "fire c = fire (cell_at env' x y) \<and> burnt c = burnt (cell_at env' x y) \<and>
          extinguished_by_drone c = extinguished_by_drone (cell_at env' x y)" by blast
    then show ?thesis
    proof cases
      case 1
      then show ?thesis by (simp add: eq)
    next
      case 2
      with nf have "\<not> fire (cell_at env' x y)" by simp
      with a True assms(4) have "burnt (cell_at env' x y) \<and> \<not> extinguished_by_drone (cell_at env' x y)"
        unfolding faded_def by blast
      with 2 show ?thesis by (simp add: eq)
    qed
  next
    case False
    with assms(1,3) ib have "?c' = cell_at env' xa ya" by (auto simp: cell_at_set_cell)
    with a assms(4) show ?thesis unfolding faded_def by simp
  qed
qed

lemma try_neighbor_cases:
  "try_neighbor x y dx dy s = s \<or> try_neighbor x y dx dy s = s\<lparr>s_rng := stl (s_rng s)\<rparr> \<or>
   (in_bounds (s_env s) (x + dx) (y + dy) \<and> eligible (cell_at (s_env s) (x + dx) (y + dy)) \<and>
    try_neighbor x y dx dy s =
      s\<lparr>s_env := set_cell (s_env s) (x + dx) (y + dy)
                  ((cell_at (s_env s) (x + dx) (y + dy))\<lparr>fire := True, fire_cooldown := 2\<rparr>),
        new_fires := new_fires s @ [(x + dx, y + dy)],
        s_rng := stl (s_rng s)\<rparr>)"
  by (simp add: try_neighbor_def Let_def)

lemma try_neighbor_ok:
  assumes "spread_ok env0 todo s"
  shows "spread_ok env0 todo (try_neighbor x y dx dy s)"
proof -
  let ?env = "s_env s" and ?nx = "x + dx" and ?ny = "y + dy"
  let ?c = "(cell_at ?env ?nx ?ny)\<lparr>fire := True, fire_cooldown := 2\<rparr>"
  let ?s' = "s\<lparr>s_env := set_cell ?env ?nx ?ny ?c, new_fires := new_fires s @ [(?nx, ?ny)],
               s_rng := stl (s_rng s)\<rparr>"
  from assms have tr: "tracked ?env (todo @ still_active s @ new_fires s)"
    and kw: "keeps water env0 ?env" and kt: "keeps tree env0 ?env" and fd: "faded env0 ?env"
    by (simp_all add: spread_ok_def)
  from tr have wf: "wf_env ?env" by (rule tracked_wf)
  consider "try_neighbor x y dx dy s = s" | "try_neighbor x y dx dy s = s\<lparr>s_rng := stl (s_rng s)\<rparr>"
    | "in_bounds ?env ?nx ?ny" "eligible (cell_at ?env ?nx ?ny)" "try_neighbor x y dx dy s = ?s'"
    using try_neighbor_cases[of x y dx dy s] by blast
  then show ?thesis
  proof cases
    case 1
    with assms show ?thesis by simp
  next
    case 2
    with assms show ?thesis by (simp add: spread_ok_def)
  next
    case 3
    have "tracked (set_cell ?env ?nx ?ny ?c) ((todo @ still_active s @ new_fires s) @ [(?nx, ?ny)])"
      using tr 3(1,2) by (intro tracked_add) (simp_all add: eligible_def)
    moreover have "keeps water ?env (set_cell ?env ?nx ?ny ?c)"
      using wf 3(1) by (intro keeps_set_cell) simp_all
    then have "keeps water env0 (set_cell ?env ?nx ?ny ?c)" using kw keeps_trans by blast
    moreover have "keeps tree ?env (set_cell ?env ?nx ?ny ?c)"
      using wf 3(1) by (intro keeps_set_cell) simp_all
    then have "keeps tree env0 (set_cell ?env ?nx ?ny ?c)" using kt keeps_trans by blast
    moreover have "faded env0 (set_cell ?env ?nx ?ny ?c)"
      using wf kw 3(1) fd by (rule faded_set_cell) simp
    ultimately show ?thesis by (simp add: 3(3) spread_ok_def)
  qed
qed

lemma try_neighbor_still_active [simp]:
  "still_active (try_neighbor x y dx dy s) = still_active s"
  using try_neighbor_cases[of x y dx dy s] by auto

lemma spread_neighbors_ok:
  assumes "spread_ok env0 todo s"
  shows "spread_ok env0 todo (spread_neighbors x y s)"
  unfolding spread_neighbors_def
  by (intro fold_invariant[where P = "spread_ok env0 todo"] assms try_neighbor_ok)

lemma spread_neighbors_still_active [simp]:
  "still_active (spread_neighbors x y s) = still_active s"
  unfolding spread_neighbors_def
  by (intro fold_invariant[where P = "\<lambda>s'. still_active s' = still_active s"]) simp_all

lemma cool_fields [simp]:
  "fire (cool c) = fire c" "tree (cool c) = tree c" "water (cool c) = water c"
  "burnt (cool c) = burnt c" "elevation (cool c) = elevation c"
  by (simp_all add: cool_def)

lemma spread_cell_burnout:
  assumes "shd (s_rng s) < 0.03"
  shows "spread_cell (x, y) s =
     s\<lparr>s_env := set_cell (set_cell (s_env s) x y (cool (cell_at (s_env s) x y))) x y
                 ((cool (cell_at (s_env s) x y))\<lparr>fire := False, burnt := True,
                     extinguished_by_drone := False\<rparr>),
       s_rng := stl (s_rng s)\<rparr>"
  using assms by (simp add: spread_cell_def Let_def cool_def)

lemma spread_cell_waiting:
  assumes "\<not> shd (s_rng s) < 0.03" "fire_cooldown (cool (cell_at (s_env s) x y)) \<noteq> 0"
  shows "spread_cell (x, y) s =
     s\<lparr>s_env := set_cell (s_env s) x y (cool (cell_at (s_env s) x y)),
       s_rng := stl (s_rng s), still_active := still_active s @ [(x, y)]\<rparr>"
  using assms by (simp add: spread_cell_def Let_def cool_def)

lemma spread_cell_spreading:
  assumes "\<not> shd (s_rng s) < 0.03" "fire_cooldown (cool (cell_at (s_env s) x y)) = 0"
  shows "spread_cell (x, y) s =
     (let s' = spread_neighbors x y
                 (s\<lparr>s_env := set_cell (s_env s) x y (cool (cell_at (s_env s) x y)),
                    s_rng := stl (s_rng s)\<rparr>)
      in s'\<lparr>s_env := set_cell (s_env s') x y ((cell_at (s_env s') x y)\<lparr>fire_cooldown := 2\<rparr>),
            still_active := still_active s @ [(x, y)]\<rparr>)"
  using assms by (simp add: spread_cell_def Let_def cool_def)

lemma spread_cell_ok:
  assumes "spread_ok env0 (p # todo) s"
  shows "spread_ok env0 todo (spread_cell p s)"
proof -
  obtain x y where p: "p = (x, y)" by (cases p)
  let ?env = "s_env s"
  let ?c1 = "cool (cell_at ?env x y)"
  let ?env1 = "set_cell ?env x y ?c1"
  let ?rest = "todo @ still_active s @ new_fires s"
  from assms have tr: "tracked ?env ((x, y) # ?rest)"
    and kw: "keeps water env0 ?env" and kt: "keeps tree env0 ?env" and fd: "faded env0 ?env"
    by (simp_all add: spread_ok_def p)
  from tr have wf: "wf_env ?env" by (rule tracked_wf)
  from tracked_burning[OF tr, of "(x, y)"]
  have ib: "in_bounds ?env x y" and fc: "fire (cell_at ?env x y)" by simp_all
  from tr ib fc have nw: "\<not> water (cell_at ?env x y)" by (rule tracked_not_water)
  from tr have notin: "(x, y) \<notin> set ?rest" and dr: "distinct ?rest"
    by (simp_all add: tracked_def)
  have tr1: "tracked ?env1 ((x, y) # ?rest)"
    using tr ib nw by (intro tracked_same) simp_all
  have wf1: "wf_env ?env1" using wf by simp
  have c1: "cell_at ?env1 x y = ?c1" using wf ib by (simp add: cell_at_set_cell)
  have kw1: "keeps water env0 ?env1"
    using keeps_trans[OF kw keeps_set_cell[OF wf ib, of water ?c1]] by simp
  have kt1: "keeps tree env0 ?env1"
    using keeps_trans[OF kt keeps_set_cell[OF wf ib, of tree ?c1]] by simp
  have fd1: "faded env0 ?env1"
    using wf kw ib fd by (rule faded_set_cell) (simp add: cool_def)
  show ?thesis
  proof (cases "shd (s_rng s) < 0.03")
    case True
    let ?c2 = "?c1\<lparr>fire := False, burnt := True, extinguished_by_drone := False\<rparr>"
    have "tracked (set_cell ?env1 x y ?c2) (filter (\<lambda>f. \<not> (fst f = x \<and> snd f = y)) ((x, y) # ?rest))"
      using tr1 ib nw by (intro tracked_remove) simp_all
    moreover have "filter (\<lambda>f. \<not> (fst f = x \<and> snd f = y)) ?rest = ?rest"
      using notin by (intro filter_True) (auto simp: prod_eq_iff)
    ultimately have "tracked (set_cell ?env1 x y ?c2) ?rest" by simp
    moreover have "keeps water env0 (set_cell ?env1 x y ?c2)"
      using keeps_trans[OF kw1 keeps_set_cell[OF wf1, of x y water ?c2]] ib c1 by simp
    moreover have "keeps tree env0 (set_cell ?env1 x y ?c2)"
      using keeps_trans[OF kt1 keeps_set_cell[OF wf1, of x y tree ?c2]] ib c1 by simp
    moreover have "faded env0 (set_cell ?env1 x y ?c2)"
      using wf1 kw1 _ fd1 by (rule faded_set_cell) (simp_all add: ib)
    ultimately show ?thesis
      by (simp add: p spread_cell_burnout[OF True] spread_ok_def)
  next
    case False
    let ?s1 = "s\<lparr>s_env := ?env1, s_rng := stl (s_rng s)\<rparr>"
    have ok1: "spread_ok env0 ((x, y) # todo) ?s1"
      using tr1 kw1 kt1 fd1 by (simp add: spread_ok_def)
    have perm: "tracked e (todo @ (still_active s @ [(x, y)]) @ nf)"
      if "tracked e ((x, y) # todo @ still_active s @ nf)" for e nf
    proof -
      from that have "distinct ((x, y) # todo @ still_active s @ nf)" by (simp add: tracked_def)
      then have "distinct (todo @ (still_active s @ [(x, y)]) @ nf)" by auto
      with that show ?thesis by (intro tracked_perm[OF that]) auto
    qed
    show ?thesis
    proof (cases "fire_cooldown ?c1 = 0")
      case nz: False
      show ?thesis using perm[OF tr1[unfolded append_Cons]] kw1 kt1 fd1
        by (simp add: p spread_cell_waiting[OF False nz] spread_ok_def)
    next
      case True
      let ?s' = "spread_neighbors x y ?s1"
      let ?env' = "s_env ?s'"
      let ?c' = "(cell_at ?env' x y)\<lparr>fire_cooldown := 2\<rparr>"
      have ok': "spread_ok env0 ((x, y) # todo) ?s'" using ok1 by (rule spread_neighbors_ok)
      then have tr': "tracked ?env' ((x, y) # todo @ still_active s @ new_fires ?s')"
        and kw': "keeps water env0 ?env'" and kt': "keeps tree env0 ?env'"
        and fd': "faded env0 ?env'"
        by (simp_all add: spread_ok_def)
      from tr' have wf': "wf_env ?env'" by (rule tracked_wf)
      from tracked_burning[OF tr', of "(x, y)"]
      have ib': "in_bounds ?env' x y" and fc': "fire (cell_at ?env' x y)" by simp_all
      from tr' ib' fc' have nw': "\<not> water (cell_at ?env' x y)" by (rule tracked_not_water)
      have "tracked (set_cell ?env' x y ?c') ((x, y) # todo @ still_active s @ new_fires ?s')"
        using tr' ib' nw' by (intro tracked_same) simp_all
      then have "tracked (set_cell ?env' x y ?c') (todo @ (still_active s @ [(x, y)]) @ new_fires ?s')"
        by (rule perm)
      moreover have "keeps water env0 (set_cell ?env' x y ?c')"
        using keeps_trans[OF kw' keeps_set_cell[OF wf' ib', of water ?c']] by simp
      moreover have "keeps tree env0 (set_cell ?env' x y ?c')"
        using keeps_trans[OF kt' keeps_set_cell[OF wf' ib', of tree ?c']] by simp
      moreover have "faded env0 (set_cell ?env' x y ?c')"
        using wf' kw' ib' fd' by (rule faded_set_cell) simp
      ultimately show ?thesis
        by (simp add: p spread_cell_spreading[OF False True] spread_ok_def Let_def)
    qed
  qed
qed

lemma fold_spread_cell_ok:
  "spread_ok env0 (xs @ todo) s \<Longrightarrow> spread_ok env0 todo (fold spread_cell xs s)"
proof (induction xs arbitrary: s)
  case Nil
  then show ?case by simp
next
  case (Cons p xs)
  from Cons.prems have "spread_ok env0 (xs @ todo) (spread_cell p s)"
    by (intro spread_cell_ok) simp
  then show ?case using Cons.IH by simp
qed

lemma spread_fire_ok:
  assumes "env_inv env"
  shows "env_inv (fst (spread_fire env r))"
    and "keeps water env (fst (spread_fire env r))"
    and "keeps tree env (fst (spread_fire env r))"
    and "faded env (fst (spread_fire env r))"
proof -
  let ?init = "\<lparr>s_env = env, new_fires = [], still_active = [], s_rng = r\<rparr>"
  let ?s = "fold spread_cell (active_fires env) ?init"
  let ?env' = "s_env ?s"
  have "spread_ok env (active_fires env @ []) ?init"
    using assms by (simp add: spread_ok_def env_inv_def)
  then have "spread_ok env [] ?s" by (rule fold_spread_cell_ok)
  then have tr: "tracked ?env' (still_active ?s @ new_fires ?s)"
    and kw: "keeps water env ?env'" and kt: "keeps tree env ?env'" and fd: "faded env ?env'"
    by (simp_all add: spread_ok_def)
  have "filter (\<lambda>p. fire (cell_at ?env' (fst p) (snd p))) (still_active ?s) = still_active ?s"
    using tracked_burning[OF tr] by (intro filter_True) simp
  then have eq: "fst (spread_fire env r) =
      ?env'\<lparr>active_fires := still_active ?s @ new_fires ?s\<rparr>"
    by (simp add: spread_fire_def Let_def)
  show "env_inv (fst (spread_fire env r))" using tr by (simp add: eq env_inv_def)
  show "keeps water env (fst (spread_fire env r))" using kw by (simp add: eq)
  show "keeps tree env (fst (spread_fire env r))" using kt by (simp add: eq)
  show "faded env (fst (spread_fire env r))" using fd by (simp add: eq)
qed

subsection \<open>The suppression pass: generic invariants\<close>

lemma scan_row_invariant:
  assumes "P s"
    and "\<And>s dy. P s \<Longrightarrow> extinguished_local s < 3 \<Longrightarrow> water_left (p_swarm s) ! i > 0
           \<Longrightarrow> P (scan_cell i x y dx dy s)"
  shows "P (scan_row i x y dx dys s)"
  using assms(1)
proof (induction dys arbitrary: s)
  case Nil
  then show ?case by simp
next
  case (Cons dy dys)
  show ?case
  proof (cases "extinguished_local s \<ge> 3 \<or> water_left (p_swarm s) ! i \<le> 0")
    case True
    with Cons.prems show ?thesis by simp
  next
    case False
    then have "P (scan_cell i x y dx dy s)" using Cons.prems by (intro assms(2)) simp_all
    then have "P (scan_row i x y dx dys (scan_cell i x y dx dy s))" by (rule Cons.IH)
    with False show ?thesis by simp
  qed
qed

lemma scan_neighborhood_invariant:
  assumes "P (s\<lparr>extinguished_local := 0\<rparr>)"
    and "\<And>s dx dy. P s \<Longrightarrow> extinguished_local s < 3 \<Longrightarrow> water_left (p_swarm s) ! i > 0
           \<Longrightarrow> P (scan_cell i x y dx dy s)"
  shows "P (scan_neighborhood i x y s)"
  unfolding scan_neighborhood_def
  by (rule fold_invariant[where P = P, OF assms(1)]) (rule scan_row_invariant, assumption, rule assms(2))

lemma suppress_drone_cases:
  "suppress_drone i s = s \<or>
   (water_left (p_swarm s) ! i = 0 \<and>
    suppress_drone i s = s\<lparr>p_swarm := (p_swarm s)\<lparr>
        water_left := (water_left (p_swarm s))[i := MAX_WATER_CAPACITY],
        refill_timers := (refill_timers (p_swarm s))[i := 0]\<rparr>\<rparr>) \<or>
   (water_left (p_swarm s) ! i = 0 \<and>
    suppress_drone i s = s\<lparr>p_swarm := (p_swarm s)\<lparr>
        refill_timers := (refill_timers (p_swarm s))[i := refill_timers (p_swarm s) ! i + 1]\<rparr>\<rparr>) \<or>
   (water_left (p_swarm s) ! i \<noteq> 0 \<and>
    suppress_drone i s = scan_neighborhood i \<lfloor>fst (positions (p_swarm s) ! i)\<rfloor>
                            \<lfloor>snd (positions (p_swarm s) ! i)\<rfloor> s)"
  by (simp add: suppress_drone_def Let_def)

lemma scan_cell_env:
  "p_env (scan_cell i x y dx dy s) =
     fst (snd (extinguish_fire_at (p_env s) (x + dx) (y + dy) (Some (x, y)) (p_clock s)))"
  by (simp add: scan_cell_def Let_def split: prod.splits)

lemma scan_cell_motion: "motion (p_swarm (scan_cell i x y dx dy s)) = motion (p_swarm s)"
  by (simp add: scan_cell_def Let_def motion_def split: prod.splits)

lemma scan_cell_calls:
  "ext_calls (scan_cell i x y dx dy s) =
     ext_calls s @ [\<lparr>c_drone = i, c_target = (x + dx, y + dy), c_drone_pos = (x, y),
       c_result = fst (extinguish_fire_at (p_env s) (x + dx) (y + dy) (Some (x, y)) (p_clock s))\<rparr>]"
  by (simp add: scan_cell_def Let_def split: prod.splits)

lemma env_inv_wf: "env_inv env \<Longrightarrow> wf_env env"
  by (simp add: env_inv_def tracked_def)

lemma scan_cell_env_ok:
  assumes "supp_env_ok env0 s"
  shows "supp_env_ok env0 (scan_cell i x y dx dy s)"
proof -
  from assms have inv: "env_inv (p_env s)" and kw: "keeps water env0 (p_env s)"
    by (simp_all add: supp_env_ok_def)
  have "env_inv (p_env (scan_cell i x y dx dy s))"
    unfolding scan_cell_env using inv by (rule extinguish_env_inv)
  moreover have "keeps water (p_env s) (p_env (scan_cell i x y dx dy s))"
    unfolding scan_cell_env using env_inv_wf[OF inv] by (rule extinguish_keeps_water)
  with kw have "keeps water env0 (p_env (scan_cell i x y dx dy s))" by (rule keeps_trans)
  ultimately show ?thesis by (simp add: supp_env_ok_def)
qed

lemma suppress_drone_env_ok:
  assumes "supp_env_ok env0 s"
  shows "supp_env_ok env0 (suppress_drone i s)"
proof -
  have "supp_env_ok env0 (scan_neighborhood i x y s)" for x y
    using assms by (intro scan_neighborhood_invariant[where P = "supp_env_ok env0"] scan_cell_env_ok)
      (simp_all add: supp_env_ok_def)
  then show ?thesis
    using suppress_drone_cases[of i s] assms by (auto simp: supp_env_ok_def)
qed

lemma suppress_pass_env_ok:
  assumes "env_inv env"
  shows "env_inv (p_env (suppress_pass env sw t))" and "keeps water env (p_env (suppress_pass env sw t))"
proof -
  have "supp_env_ok env (suppress_pass env sw t)"
    unfolding suppress_pass_def
    using assms by (intro fold_invariant[where P = "supp_env_ok env"] suppress_drone_env_ok)
      (simp_all add: supp_env_ok_def)
  then show "env_inv (p_env (suppress_pass env sw t))"
    and "keeps water env (p_env (suppress_pass env sw t))"
    by (simp_all add: supp_env_ok_def)
qed

lemma step_env:
  "r_env (step env sw t r) = p_env (suppress_pass env (best_pass env (fst (move_pass env sw r))) t)"
  by (simp add: step_def Let_def split: prod.splits)

lemma step_env_ok:
  assumes "env_inv env"
  shows "env_inv (r_env (step env sw t r))" and "keeps water env (r_env (step env sw t r))"
  unfolding step_env using assms by (rule suppress_pass_env_ok)+

lemma motion_positions: "motion sw = motion sw' \<Longrightarrow> positions sw = positions sw'"
  by (simp add: motion_def)

lemma suppress_drone_calls_ok:
  assumes "supp_calls_ok sw0 s"
  shows "supp_calls_ok sw0 (suppress_drone i s)"
proof -
  from assms have m: "motion (p_swarm s) = motion sw0" by (simp add: supp_calls_ok_def)
  then have pos: "positions (p_swarm s) = positions sw0" by (rule motion_positions)
  let ?x = "\<lfloor>fst (positions sw0 ! i)\<rfloor>" and ?y = "\<lfloor>snd (positions sw0 ! i)\<rfloor>"
  have step: "supp_calls_ok sw0 (scan_cell i ?x ?y dx dy s')" if "supp_calls_ok sw0 s'" for s' dx dy
  proof -
    from that show ?thesis
      by (simp add: supp_calls_ok_def scan_cell_motion scan_cell_calls floor_pos_def)
  qed
  have "supp_calls_ok sw0 (scan_neighborhood i ?x ?y s)"
    using assms by (intro scan_neighborhood_invariant[where P = "supp_calls_ok sw0"] step)
      (simp_all add: supp_calls_ok_def)
  then show ?thesis
    using suppress_drone_cases[of i s] assms m by (auto simp: supp_calls_ok_def pos motion_def)
qed

lemma suppress_pass_calls_ok: "supp_calls_ok sw (suppress_pass env sw t)"
  unfolding suppress_pass_def
  by (intro fold_invariant[where P = "supp_calls_ok sw"] suppress_drone_calls_ok)
    (simp add: supp_calls_ok_def)

subsection \<open>Claims on extinguish\<close>

text \<open>C7: \<open>extinguish_fire_at\<close> on a cell that is not burning, or on coordinates outside the
  grid, returns \<open>false\<close>, leaves the environment (every cell and the list of active fires)
  as it was, and does not advance the clock.\<close>

theorem extinguish_not_burning:
  assumes "\<not> (in_bounds env x y \<and> fire (cell_at env x y))"
  shows "extinguish_fire_at env x y drone_pos simulation_time = (False, env, simulation_time)"
  using assms by (auto simp: extinguish_fire_at_def)

lemma env_1x2_simps [simp]:
  "width (env_1x2 a b) = 2" "height (env_1x2 a b) = 1" "wind (env_1x2 a b) = (1, 0)"
  "active_fires (env_1x2 a b) = [(0, 0)]"
  "cell_at (env_1x2 a b) 0 0 = (new_Cell a)\<lparr>fire := True\<rparr>"
  "cell_at (env_1x2 a b) 1 0 = new_Cell b"
  "wf_env (env_1x2 a b)"
  by (simp_all add: env_1x2_def cell_at_def wf_env_def)

theorem extinguish_not_burning_witness:
  "\<not> (in_bounds (env_1x2 0 0) 1 0 \<and> fire (cell_at (env_1x2 0 0) 1 0)) \<and>
   \<not> (in_bounds (env_1x2 0 0) 0 5 \<and> fire (cell_at (env_1x2 0 0) 0 5)) \<and>
   extinguish_fire_at (env_1x2 0 0) 1 0 (Some (0, 0)) (Some 7) = (False, env_1x2 0 0, Some 7) \<and>
   extinguish_fire_at (env_1x2 0 0) 0 5 (Some (0, 0)) (Some 7) = (False, env_1x2 0 0, Some 7)"
  using extinguish_not_burning[of "env_1x2 0 0" 1 0 "Some (0, 0)" "Some 7"]
    extinguish_not_burning[of "env_1x2 0 0" 0 5 "Some (0, 0)" "Some 7"]
  by (simp add: in_bounds_def new_Cell_def)

text \<open>C3: on a burning cell inside the grid, \<open>extinguish_fire_at\<close> with a requester position
  and a clock returns \<open>true\<close>, leaves the cell not burning, burnt, not a tree, marked as
  extinguished by a drone and with cooldown 0, removes the coordinate from the active fires,
  and advances the clock by the travel time (Euclidean distance times \<open>CELL_SIZE\<close> over
  \<open>DRONE_SPEED\<close>) plus \<open>EXTINGUISH_TIME\<close>: by exactly 40 when the requester is on the cell.\<close>

theorem extinguish_burning:
  assumes "wf_env env" "in_bounds env x y" "fire (cell_at env x y)"
  shows "(case extinguish_fire_at env x y (Some requester) (Some clock) of (ok, env', clock') \<Rightarrow>
     ok \<and> \<not> fire (cell_at env' x y) \<and> burnt (cell_at env' x y) \<and> \<not> tree (cell_at env' x y) \<and>
     extinguished_by_drone (cell_at env' x y) \<and> fire_cooldown (cell_at env' x y) = 0 \<and>
     (x, y) \<notin> set (active_fires env') \<and>
     set (active_fires env') = set (active_fires env) - {(x, y)} \<and>
     clock' = Some (clock +
        (sqrt ((real_of_int (x - fst requester))\<^sup>2 + (real_of_int (y - snd requester))\<^sup>2)
           * CELL_SIZE / DRONE_SPEED + EXTINGUISH_TIME)) \<and>
     (requester = (x, y) \<longrightarrow> clock' = Some (clock + 40)))"
proof -
  have "set (filter (\<lambda>f. \<not> (fst f = x \<and> snd f = y)) (active_fires env))
      = set (active_fires env) - {(x, y)}" by auto
  then show ?thesis using assms
    by (auto simp: extinguish_fire_at_def Let_def cell_at_set_cell travel_time_def power2_eq_square
        CELL_SIZE_def DRONE_SPEED_def EXTINGUISH_TIME_def)
qed

theorem extinguish_burning_witness:
  "wf_env (env_1x2 0 0) \<and> in_bounds (env_1x2 0 0) 0 0 \<and> fire (cell_at (env_1x2 0 0) 0 0) \<and>
   fst (extinguish_fire_at (env_1x2 0 0) 0 0 (Some (0, 0)) (Some 5)) \<and>
   active_fires (fst (snd (extinguish_fire_at (env_1x2 0 0) 0 0 (Some (0, 0)) (Some 5)))) = [] \<and>
   snd (snd (extinguish_fire_at (env_1x2 0 0) 0 0 (Some (0, 0)) (Some 5))) = Some 45"
  using extinguish_burning[where env = "env_1x2 0 0" and x = 0 and y = 0
      and requester = "(0, 0)" and clock = 5]
  by (simp add: in_bounds_def extinguish_fire_at_def travel_time_def EXTINGUISH_TIME_def)

subsection \<open>Claim on the ignition draw\<close>

text \<open>C1 (as the code has it): for an eligible neighbour inside the grid, the draw ignites it
  exactly when the sample is below \<open>clamp(0.05 + elevation_delta * 0.003 + bonus, 0.005, 0.4)\<close>,
  where the bonus is 0.08 in the wind direction and 0 otherwise: the wind bonus is added before
  the clamp, so the probability never exceeds 0.4.\<close>

theorem try_neighbor_draw:
  assumes "wf_env (s_env s)" "in_bounds (s_env s) (x + dx) (y + dy)"
    and "eligible (cell_at (s_env s) (x + dx) (y + dy))" "\<not> (dx = 0 \<and> dy = 0)"
  shows "fire (cell_at (s_env (try_neighbor x y dx dy s)) (x + dx) (y + dy)) \<longleftrightarrow>
     shd (s_rng s) <
       min (max (0.05 + (elevation (cell_at (s_env s) (x + dx) (y + dy))
                          - elevation (cell_at (s_env s) x y)) * 0.003
                      + (if dx = fst (wind (s_env s)) \<and> dy = snd (wind (s_env s)) then 0.08 else 0)) 0.005) 0.4"
proof -
  let ?n = "cell_at (s_env s) (x + dx) (y + dy)" and ?c = "cell_at (s_env s) x y"
  have sp: "spread_prob (s_env s) ?c ?n dx dy =
      min (max (0.05 + (elevation ?n - elevation ?c) * 0.003
                 + (if dx = fst (wind (s_env s)) \<and> dy = snd (wind (s_env s)) then 0.08 else 0)) 0.005) 0.4"
  proof -
    have h: "(if b then base + 0.08 else base) = base + (if b then 0.08 else 0)"
      for b and base :: real by simp
    show ?thesis by (simp only: spread_prob_def Let_def h)
  qed
  have "fire (cell_at (s_env (try_neighbor x y dx dy s)) (x + dx) (y + dy)) \<longleftrightarrow>
      shd (s_rng s) < spread_prob (s_env s) ?c ?n dx dy"
    using assms by (auto simp: try_neighbor_def Let_def cell_at_set_cell eligible_def)
  then show ?thesis by (simp only: sp)
qed

theorem try_neighbor_draw_witness:
  "wf_env (env_1x2 0 99) \<and> in_bounds (env_1x2 0 99) (0 + 1) (0 + 0) \<and>
   eligible (cell_at (env_1x2 0 99) (0 + 1) (0 + 0)) \<and> \<not> ((1::int) = 0 \<and> (0::int) = 0) \<and>
   fire (cell_at (s_env (try_neighbor 0 0 1 0
     \<lparr>s_env = env_1x2 0 99, new_fires = [], still_active = [], s_rng = sconst 0.39\<rparr>)) 1 0)"
  using try_neighbor_draw[where s = "\<lparr>s_env = env_1x2 0 99, new_fires = [], still_active = [],
     s_rng = sconst 0.39\<rparr>" and x = 0 and y = 0 and dx = 1 and dy = 0]
  by (simp add: in_bounds_def eligible_def new_Cell_def)

text \<open>Adding the bonus after the clamp gives 0.427 for a neighbour 99 higher in the wind
  direction; a sample of 0.41 is below that, and the code does not ignite the neighbour.\<close>

theorem clamp_then_wind_counterexample:
  "shd (sconst 0.41) < min (max (0.05 + (99 - 0) * 0.003) 0.005) 0.4 + (0.08::real) \<and>
   \<not> fire (cell_at (s_env (try_neighbor 0 0 1 0
     \<lparr>s_env = env_1x2 0 99, new_fires = [], still_active = [], s_rng = sconst 0.41\<rparr>)) 1 0)"
  by (simp add: try_neighbor_def Let_def in_bounds_def eligible_def new_Cell_def spread_prob_def)

subsection \<open>Claim on natural burnout and the cover count\<close>

lemma fold_count_cell:
  "fold count_cell row (a, b) =
     (a + int (length (filter tree row)), b + int (length (filter (\<lambda>c. \<not> tree c \<and> burnt c) row)))"
  by (induction row arbitrary: a b) (simp_all add: count_cell_def)

lemma fold_count_rows:
  "fold (\<lambda>row. fold count_cell row) g (a, b) =
     (a + int (length (filter tree (concat g))),
      b + int (length (filter (\<lambda>c. \<not> tree c \<and> burnt c) (concat g))))"
  by (induction g arbitrary: a b) (simp_all add: fold_count_cell)

lemma env_1x2_in_bounds: "in_bounds (env_1x2 a b) x y \<longleftrightarrow> (x = 0 \<or> x = 1) \<and> y = 0"
  unfolding in_bounds_def by (simp add: env_1x2_def) linarith

lemma env_1x2_burning: "burning (env_1x2 a b) = {(0, 0)}"
  by (auto simp: burning_def env_1x2_in_bounds new_Cell_def)

lemma env_1x2_inv: "env_inv (env_1x2 a b)"
proof -
  have "water_ok (env_1x2 a b)"
    by (auto simp: water_ok_def env_1x2_in_bounds new_Cell_def)
  then show ?thesis by (simp add: env_inv_def tracked_def env_1x2_burning)
qed

text \<open>C8: a burning tree cell that \<open>spread_fire\<close> leaves not burning (the natural burnout, the
  only way the function puts a fire out) is burnt, not marked as extinguished by a drone, and
  still has its tree flag; \<open>extinguish_fire_at\<close> clears the tree flag.  \<open>count_trees\<close> counts
  the cells with the tree flag as saved and only the others that are burnt as burnt, so the
  first cell adds to the saved count and the second to the burnt count.\<close>

theorem natural_burnout_keeps_tree:
  assumes "env_inv env" "in_bounds env x y" "fire (cell_at env x y)" "tree (cell_at env x y)"
    and "\<not> fire (cell_at (fst (spread_fire env r)) x y)"
  shows "tree (cell_at (fst (spread_fire env r)) x y) \<and>
     burnt (cell_at (fst (spread_fire env r)) x y) \<and>
     \<not> extinguished_by_drone (cell_at (fst (spread_fire env r)) x y) \<and>
     count_cell (cell_at (fst (spread_fire env r)) x y) (saved, lost) = (saved + 1, lost) \<and>
     \<not> tree (cell_at (fst (snd (extinguish_fire_at env x y dp t))) x y) \<and>
     burnt (cell_at (fst (snd (extinguish_fire_at env x y dp t))) x y) \<and>
     count_cell (cell_at (fst (snd (extinguish_fire_at env x y dp t))) x y) (saved, lost)
       = (saved, lost + 1) \<and>
     count_trees env =
       (int (length (filter tree (concat (grid env)))),
        int (length (filter (\<lambda>c. \<not> tree c \<and> burnt c) (concat (grid env)))))"
proof -
  let ?c' = "cell_at (fst (spread_fire env r)) x y"
  let ?c'' = "cell_at (fst (snd (extinguish_fire_at env x y dp t))) x y"
  have "tree ?c' = tree (cell_at env x y)"
    using spread_fire_ok(3)[OF assms(1)] assms(2) by (rule keeps_cell)
  with assms(4) have t: "tree ?c'" by simp
  have b: "burnt ?c' \<and> \<not> extinguished_by_drone ?c'"
    using spread_fire_ok(4)[OF assms(1), of r] assms(2,3,5) unfolding faded_def by blast
  have e: "\<not> tree ?c'' \<and> burnt ?c''"
    using env_inv_wf[OF assms(1)] assms(2,3)
    by (simp add: extinguish_fire_at_def Let_def cell_at_set_cell)
  have "count_trees env =
       (int (length (filter tree (concat (grid env)))),
        int (length (filter (\<lambda>c. \<not> tree c \<and> burnt c) (concat (grid env)))))"
    by (simp add: count_trees_def fold_count_rows)
  with t b e show ?thesis by (simp add: count_cell_def)
qed

theorem natural_burnout_keeps_tree_witness:
  "env_inv (env_1x2 0 0) \<and> in_bounds (env_1x2 0 0) 0 0 \<and> fire (cell_at (env_1x2 0 0) 0 0) \<and>
   tree (cell_at (env_1x2 0 0) 0 0) \<and>
   \<not> fire (cell_at (fst (spread_fire (env_1x2 0 0) (sconst 0.01))) 0 0) \<and>
   tree (cell_at (fst (spread_fire (env_1x2 0 0) (sconst 0.01))) 0 0) \<and>
   burnt (cell_at (fst (spread_fire (env_1x2 0 0) (sconst 0.01))) 0 0) \<and>
   count_trees (fst (spread_fire (env_1x2 0 0) (sconst 0.01))) = (2, 0) \<and>
   count_trees (fst (snd (extinguish_fire_at (env_1x2 0 0) 0 0 None None))) = (1, 1)"
proof -
  have nf: "\<not> fire (cell_at (fst (spread_fire (env_1x2 0 0) (sconst 0.01))) 0 0)"
    by (simp add: spread_fire_def spread_cell_def Let_def env_1x2_def cell_at_def set_cell_def
        new_Cell_def)
  have c1: "count_trees (fst (spread_fire (env_1x2 0 0) (sconst 0.01))) = (2, 0)"
    by (simp add: spread_fire_def spread_cell_def Let_def env_1x2_def cell_at_def set_cell_def
        new_Cell_def count_trees_def count_cell_def)
  have c2: "count_trees (fst (snd (extinguish_fire_at (env_1x2 0 0) 0 0 None None))) = (1, 1)"
    by (simp add: extinguish_fire_at_def Let_def env_1x2_def cell_at_def set_cell_def
        new_Cell_def count_trees_def count_cell_def in_bounds_def)
  have h: "in_bounds (env_1x2 0 0) 0 0" "fire (cell_at (env_1x2 0 0) 0 0)"
    "tree (cell_at (env_1x2 0 0) 0 0)"
    by (simp_all add: in_bounds_def new_Cell_def)
  from natural_burnout_keeps_tree[OF env_1x2_inv h nf, of 0 0 None None] env_1x2_inv h nf c1 c2
  show ?thesis by simp
qed

subsection \<open>Claim on the global best\<close>

lemma js_less_trans: "js_less a b \<Longrightarrow> js_less b c \<Longrightarrow> js_less a c"
  by (cases a; cases b; cases c) simp_all

lemma not_worse_refl [simp]: "not_worse a a"
  by (simp add: not_worse_def)

lemma not_worse_trans: "not_worse a b \<Longrightarrow> not_worse b c \<Longrightarrow> not_worse a c"
  unfolding not_worse_def using js_less_trans by blast

lemma move_drone_gbest: "gbest_value (fst (move_drone env i sr)) = gbest_value (fst sr)"
  by (simp add: move_drone_def Let_def)

lemma move_pass_gbest: "gbest_value (fst (move_pass env sw r)) = gbest_value sw"
  unfolding move_pass_def
  by (rule fold_invariant[where P = "\<lambda>sr. gbest_value (fst sr) = gbest_value sw"])
    (simp_all add: move_drone_gbest)

lemma update_best_gbest: "not_worse (gbest_value (update_best env i sw)) (gbest_value sw)"
  by (simp add: update_best_def Let_def not_worse_def)

lemma best_pass_gbest: "not_worse (gbest_value (best_pass env sw)) (gbest_value sw)"
  unfolding best_pass_def
proof (rule fold_invariant[where P = "\<lambda>sw'. not_worse (gbest_value sw') (gbest_value sw)"])
  show "not_worse (gbest_value sw) (gbest_value sw)" by simp
next
  fix i and sw' :: drone_swarm
  assume "not_worse (gbest_value sw') (gbest_value sw)"
  with update_best_gbest[of env i sw']
  show "not_worse (gbest_value (update_best env i sw')) (gbest_value sw)"
    by (rule not_worse_trans)
qed

lemma suppress_pass_motion: "motion (p_swarm (suppress_pass env sw t)) = motion sw"
  using suppress_pass_calls_ok[of sw env t] by (simp add: supp_calls_ok_def)

lemma step_swarm:
  "r_swarm (step env sw t r) = p_swarm (suppress_pass env (best_pass env (fst (move_pass env sw r))) t)"
  by (simp add: step_def Let_def split: prod.splits)

text \<open>C6: a swarm step leaves \<open>gbest_value\<close> unchanged or makes it strictly smaller, whatever
  the environment, the swarm and the random draws are.\<close>

theorem step_gbest_value_not_worse:
  "gbest_value (r_swarm (step env sw t r)) = gbest_value sw \<or>
   js_less (gbest_value (r_swarm (step env sw t r))) (gbest_value sw)"
proof -
  let ?sw1 = "fst (move_pass env sw r)"
  have "motion (r_swarm (step env sw t r)) = motion (best_pass env ?sw1)"
    unfolding step_swarm by (rule suppress_pass_motion)
  then have "gbest_value (r_swarm (step env sw t r)) = gbest_value (best_pass env ?sw1)"
    by (simp add: motion_def)
  moreover have "not_worse (gbest_value (best_pass env ?sw1)) (gbest_value ?sw1)"
    by (rule best_pass_gbest)
  ultimately show ?thesis by (simp add: move_pass_gbest not_worse_def)
qed

subsection \<open>The initial environment\<close>

lemma funpow_invariant:
  assumes "P x" and "\<And>x. P x \<Longrightarrow> P (f x)"
  shows "P ((f ^^ n) x)"
  using assms by (induction n) simp_all

lemma fill_row_props:
  "length (fst (fill_row n r)) = n \<and> (\<forall>c \<in> set (fst (fill_row n r)). unlit c)"
proof (induction n arbitrary: r)
  case 0
  then show ?case by simp
next
  case (Suc n)
  obtain cs r1 where fr: "fill_row n (stl r) = (cs, r1)" by (cases "fill_row n (stl r)")
  from Suc.IH[of "stl r"] fr have "length cs = n \<and> (\<forall>c \<in> set cs. unlit c)" by simp
  moreover have "unlit (new_Cell e)" for e by (simp add: new_Cell_def unlit_def)
  ultimately show ?case by (simp add: fr Let_def)
qed

lemma fill_grid_props:
  "length (fst (fill_grid w n r)) = n \<and>
   (\<forall>row \<in> set (fst (fill_grid w n r)). length row = w \<and> (\<forall>c \<in> set row. unlit c))"
proof (induction n arbitrary: r)
  case 0
  then show ?case by simp
next
  case (Suc n)
  obtain row r1 where fr: "fill_row w r = (row, r1)" by (cases "fill_row w r")
  obtain rows r2 where fg: "fill_grid w n r1 = (rows, r2)" by (cases "fill_grid w n r1")
  from fill_row_props[of w r] fr have "length row = w \<and> (\<forall>c \<in> set row. unlit c)" by simp
  moreover from Suc.IH[of r1] fg
  have "length rows = n \<and> (\<forall>row \<in> set rows. length row = w \<and> (\<forall>c \<in> set row. unlit c))" by simp
  ultimately show ?case by (simp add: fr fg)
qed

lemma cell_at_mem:
  assumes "wf_env env" "in_bounds env x y"
  shows "\<exists>row \<in> set (grid env). cell_at env x y \<in> set row"
proof -
  have "grid env ! nat y \<in> set (grid env)"
    using wf_env_rowD[OF assms] by simp
  moreover have "cell_at env x y \<in> set (grid env ! nat y)"
    unfolding cell_at_def using wf_env_colD[OF assms] by simp
  ultimately show ?thesis by blast
qed

lemma new_Environment_fresh: "fresh (fst (new_Environment w h r))"
proof -
  obtain g r' where fg: "fill_grid (nat w) (nat h) r = (g, r')" by (cases "fill_grid (nat w) (nat h) r")
  let ?env = "\<lparr>width = w, height = h, grid = g, wind = (1, 0), active_fires = []\<rparr>"
  from fill_grid_props[of "nat w" "nat h" r] fg
  have g: "length g = nat h" "\<forall>row \<in> set g. length row = nat w \<and> (\<forall>c \<in> set row. unlit c)"
    by simp_all
  then have wf: "wf_env ?env" by (simp add: wf_env_def)
  have "unlit (cell_at ?env x y)" if "in_bounds ?env x y" for x y
    using cell_at_mem[OF wf that] g(2) by auto
  with wf have "fresh ?env" by (simp add: fresh_def)
  then show ?thesis by (simp add: new_Environment_def fg)
qed

lemma fresh_set_cell:
  assumes "fresh env" "in_bounds env x y" "unlit c"
  shows "fresh (set_cell env x y c)"
  using assms by (auto simp: fresh_def cell_at_set_cell)

lemma walk_step_fresh:
  assumes "fresh (w_env s)"
  shows "fresh (w_env (walk_step s))"
proof (cases "in_bounds (w_env s) (w_x s) (w_y s)")
  case True
  have "unlit ((cell_at (w_env s) (w_x s) (w_y s))\<lparr>water := True, tree := False\<rparr>)"
    using assms True by (simp add: fresh_def unlit_def)
  with assms True show ?thesis by (simp add: walk_step_def Let_def fresh_set_cell)
next
  case False
  with assms show ?thesis by (simp add: walk_step_def Let_def)
qed

lemma water_blob_fresh: "fresh (fst er) \<Longrightarrow> fresh (fst (water_blob er))"
  unfolding water_blob_def Let_def fst_conv
  by (rule funpow_invariant[where P = "\<lambda>s. fresh (w_env s)"]) (simp_all add: walk_step_fresh)

lemma add_water_blobs_fresh: "fresh env \<Longrightarrow> fresh (fst (add_water_blobs env n r))"
  unfolding add_water_blobs_def Let_def
  by (rule funpow_invariant[where P = "\<lambda>er. fresh (fst er)"]) (simp_all add: water_blob_fresh)

lemma fresh_env_inv: "fresh env \<Longrightarrow> env_inv env"
  by (auto simp: fresh_def env_inv_def tracked_def burning_def water_ok_def unlit_def)

lemma reachable_env_inv: "reachable_env env \<Longrightarrow> env_inv env"
proof (induction rule: reachable_env.induct)
  case (init w h r n r')
  show ?case by (intro fresh_env_inv add_water_blobs_fresh new_Environment_fresh)
next
  case (ignited env x y)
  then show ?case by (intro ignite_env_inv)
next
  case (spread env r)
  then show ?case by (intro spread_fire_ok(1))
next
  case (extinguished env x y dp t)
  then show ?case by (intro extinguish_env_inv)
next
  case (stepped env sw t r)
  then show ?case by (intro step_env_ok(1))
qed

subsection \<open>The tick\<close>

lemma initial_fires_reachable:
  "reachable_env (fst er) \<Longrightarrow> reachable_env (fst (initial_fires n er))"
proof (induction n arbitrary: er)
  case 0
  then show ?case by simp
next
  case (Suc n)
  show ?case unfolding initial_fires.simps Let_def
    by (rule Suc.IH) (simp add: reachable_env.ignited[OF Suc.prems])
qed

lemma initSim_reachable: "reachable_env (envRef (fst (initSim r)))"
proof -
  obtain env0 r0 where e0: "new_Environment 40 20 r = (env0, r0)" by (cases "new_Environment 40 20 r")
  obtain env1 r1 where e1: "add_water_blobs env0 3 r0 = (env1, r1)" by (cases "add_water_blobs env0 3 r0")
  obtain env2 r2 where e2: "initial_fires 5 (env1, r1) = (env2, r2)" by (cases "initial_fires 5 (env1, r1)")
  have "reachable_env (fst (add_water_blobs (fst (new_Environment 40 20 r)) 3 r0))"
    by (rule reachable_env.init)
  then have "reachable_env (fst (env1, r1))" by (simp add: e0 e1)
  then have "reachable_env (fst (initial_fires 5 (env1, r1)))" by (rule initial_fires_reachable)
  then show ?thesis by (simp add: initSim_def e0 e1 e2)
qed

lemma reignite_cases: "fst (reignite n env r) = env \<or> (\<exists>x y. fst (reignite n env r) = ignite env x y)"
  by (auto simp: reignite_def Let_def)

lemma reignite_reachable: "reachable_env env \<Longrightarrow> reachable_env (fst (reignite n env r))"
  using reignite_cases[of n env r] by (auto intro: reachable_env.ignited)

lemma step_sim_env:
  assumes "step_sim om pp pg st r = Some (st', r')"
  shows "\<exists>env2 r3. envRef st' = fst (reignite (stepCount st) env2 r3) \<and>
      (env2 = fst (spread_fire (envRef st) r) \<or>
       (\<exists>sw t r2. env2 = r_env (step (fst (spread_fire (envRef st) r)) sw t r2)))"
proof -
  obtain env1 r1 where sf: "spread_fire (envRef st) r = (env1, r1)" by (cases "spread_fire (envRef st) r")
  let ?created = "(if stepCount st = 10
                     then map_option (\<lambda>(sw, r'). (Some sw, 0, r')) (new_DroneSwarm env1 20 r1)
                     else Some (simRef st, simTime st, r1))"
  from assms sf obtain sim t r2 where cr: "?created = Some (sim, t, r2)"
    by (cases ?created) (auto simp: step_sim_def)
  show ?thesis
  proof (cases sim)
    case None
    with assms sf cr have "envRef st' = fst (reignite (stepCount st) env1 r2)"
      by (auto simp: step_sim_def Let_def split: prod.splits)
    then show ?thesis by (intro exI[of _ env1] exI[of _ r2]) (simp add: sf)
  next
    case (Some sw)
    let ?res = "step env1 (sw\<lparr>omega := om, phi_p := pp, phi_g := pg\<rparr>) (Some t) r2"
    from Some assms sf cr have "envRef st' = fst (reignite (stepCount st) (r_env ?res) (r_rng ?res))"
      by (auto simp: step_sim_def Let_def split: prod.splits)
    then show ?thesis by (intro exI[of _ "r_env ?res"] exI[of _ "r_rng ?res"]) (auto simp: sf)
  qed
qed

lemma step_sim_reachable:
  assumes "reachable_env (envRef st)" "step_sim om pp pg st r = Some (st', r')"
  shows "reachable_env (envRef st')"
proof -
  from step_sim_env[OF assms(2)] obtain env2 r3 where
    e: "envRef st' = fst (reignite (stepCount st) env2 r3)" and
    c: "env2 = fst (spread_fire (envRef st) r) \<or>
       (\<exists>sw t r2. env2 = r_env (step (fst (spread_fire (envRef st) r)) sw t r2))" by blast
  have "reachable_env (fst (spread_fire (envRef st) r))"
    using assms(1) by (rule reachable_env.spread)
  with c have "reachable_env env2" by (auto intro: reachable_env.stepped)
  then show ?thesis unfolding e by (rule reignite_reachable)
qed

subsection \<open>The swarm constructor and the tick return\<close>

lemma js_min_cases: "js_min a b = a \<or> js_min a b = b"
  by (cases a; cases b) (simp_all add: min_def)

lemma fold_js_min_mem: "fold (\<lambda>v m. js_min m v) xs m \<in> insert m (set xs)"
proof (induction xs arbitrary: m)
  case Nil
  then show ?case by simp
next
  case (Cons x xs)
  from Cons.IH[of "js_min m x"] js_min_cases[of m x] show ?case by auto
qed

lemma Math_min_mem: "xs \<noteq> [] \<Longrightarrow> Math_min xs \<in> set xs"
proof (cases xs)
  case Nil
  then show "xs \<noteq> [] \<Longrightarrow> ?thesis" by simp
next
  case (Cons x xs')
  from fold_js_min_mem[of xs' x] show ?thesis by (simp add: Math_min_def Cons)
qed

lemma indexOf_mem: "v \<in> set xs \<Longrightarrow> \<exists>i. indexOf xs v = Some i"
  by (induction xs) auto

lemma random_pairs_length: "length (fst (random_pairs n f g r)) = n"
proof (induction n arbitrary: r)
  case 0
  then show ?case by simp
next
  case (Suc n)
  obtain ps r' where rp: "random_pairs n f g (stl (stl r)) = (ps, r')"
    by (cases "random_pairs n f g (stl (stl r))")
  from Suc.IH[of "stl (stl r)"] rp show ?case by (simp add: Let_def)
qed

lemma new_DroneSwarm_returns:
  assumes "0 < n"
  shows "\<exists>sw r'. new_DroneSwarm env n r = Some (sw, r')"
proof -
  let ?f = "\<lambda>u. u * real_of_int (width env - 1)" and ?g = "\<lambda>u. u * real_of_int (height env - 1)"
  obtain ps r1 where p: "random_pairs n ?f ?g r = (ps, r1)" by (cases "random_pairs n ?f ?g r")
  obtain vs r2 where v: "random_pairs n (\<lambda>u. (u - 0.5) * 3) (\<lambda>u. (u - 0.5) * 3) r1 = (vs, r2)"
    by (cases "random_pairs n (\<lambda>u. (u - 0.5) * 3) (\<lambda>u. (u - 0.5) * 3) r1")
  from random_pairs_length[of n ?f ?g r] p have "length ps = n" by simp
  with assms have "map (fitness env) ps \<noteq> []" by auto
  then have "Math_min (map (fitness env) ps) \<in> set (map (fitness env) ps)" by (rule Math_min_mem)
  from indexOf_mem[OF this] obtain i
    where i: "indexOf (map (fitness env) ps) (Math_min (map (fitness env) ps)) = Some i" ..
  show ?thesis unfolding new_DroneSwarm_def p v Let_def prod.case i option.case by blast
qed

lemma step_sim_returns: "\<exists>st' r'. step_sim om pp pg st r = Some (st', r')"
proof -
  obtain env1 r1 where sf: "spread_fire (envRef st) r = (env1, r1)" by (cases "spread_fire (envRef st) r")
  have "\<exists>sw r'. new_DroneSwarm env1 20 r1 = Some (sw, r')"
    by (rule new_DroneSwarm_returns) simp
  then obtain sw r2 where ns: "new_DroneSwarm env1 20 r1 = Some (sw, r2)" by blast
  show ?thesis
  proof (cases "stepCount st = 10")
    case True
    then show ?thesis
      by (simp add: step_sim_def sf ns Let_def split: prod.splits)
  next
    case False
    then show ?thesis
      by (cases "simRef st") (simp_all add: step_sim_def sf Let_def split: prod.splits)
  qed
qed

subsection \<open>Claim on the list of active fires\<close>

lemma env_inv_fire_consistent:
  assumes "env_inv env"
  shows "fire_consistent env"
proof -
  let ?all = "List.product [0..width env - 1] [0..height env - 1]"
  let ?lit = "filter (\<lambda>p. fire (cell_at env (fst p) (snd p))) ?all"
  from assms have d: "distinct (active_fires env)" and b: "set (active_fires env) = burning env"
    by (simp_all add: env_inv_def tracked_def)
  have "distinct ?all" by (intro distinct_product) simp_all
  then have dl: "distinct ?lit" by simp
  have "set ?lit = burning env" by (auto simp: burning_def in_bounds_def)
  with b have "card (set ?lit) = card (set (active_fires env))" by simp
  moreover have "card (set ?lit) = length ?lit" using dl by (rule distinct_card)
  moreover have "card (set (active_fires env)) = length (active_fires env)"
    using d by (rule distinct_card)
  ultimately have "length (active_fires env) = length ?lit" by simp
  with d show ?thesis by (simp add: fire_consistent_def count_burning_def)
qed

lemma count_burning_env_1x2: "count_burning (env_1x2 a b) = 1"
  by (simp add: count_burning_def upto.simps[of 0 1] new_Cell_def)

text \<open>C5: in the initial state and after every tick, and more generally in every environment
  that ignitions, fire advances, suppressions and swarm steps can produce from the constructed
  grid, the list of active fires has no duplicate and as many entries as there are burning
  cells.  A tick always returns.\<close>

theorem active_fires_consistent:
  "fire_consistent (envRef (fst (initSim r0))) \<and>
   (reachable_env env \<longrightarrow> fire_consistent env) \<and>
   (reachable_env (envRef st) \<longrightarrow>
      (\<exists>st' r'. step_sim om pp pg st r = Some (st', r') \<and> reachable_env (envRef st') \<and>
         fire_consistent (envRef st')))"
proof -
  have a: "fire_consistent e" if "reachable_env e" for e
    using that by (intro env_inv_fire_consistent reachable_env_inv)
  obtain st' r' where s: "step_sim om pp pg st r = Some (st', r')"
    using step_sim_returns by blast
  have "reachable_env (envRef st')" if "reachable_env (envRef st)"
    using that s by (rule step_sim_reachable)
  with a s initSim_reachable show ?thesis by blast
qed

theorem active_fires_consistent_witness:
  "reachable_env (envRef (fst (initSim (sconst 0)))) \<and>
   fire_consistent (envRef (fst (initSim (sconst 0)))) \<and>
   (\<exists>st' r'. step_sim 0.7 1.5 1.5 (fst (initSim (sconst 0))) (sconst 0.5) = Some (st', r') \<and>
      fire_consistent (envRef st'))"
  using active_fires_consistent[where ?r0.0 = "sconst 0"
      and env = "envRef (fst (initSim (sconst 0)))" and st = "fst (initSim (sconst 0))"
      and om = "0.7" and pp = "1.5" and pg = "1.5" and r = "sconst 0.5"]
    initSim_reachable[of "sconst 0"]
  by blast

subsection \<open>Claim on water cells\<close>

lemma reignite_keeps_water: "wf_env env \<Longrightarrow> keeps water env (fst (reignite n env r))"
  using reignite_cases[of n env r] ignite_keeps_water[of env] by auto

lemma step_sim_keeps_water:
  assumes "reachable_env (envRef st)" "step_sim om pp pg st r = Some (st', r')"
  shows "keeps water (envRef st) (envRef st')"
proof -
  let ?env1 = "fst (spread_fire (envRef st) r)"
  from step_sim_env[OF assms(2)] obtain env2 r3 where
    e: "envRef st' = fst (reignite (stepCount st) env2 r3)" and
    c: "env2 = ?env1 \<or> (\<exists>sw t r2. env2 = r_env (step ?env1 sw t r2))" by blast
  have i0: "env_inv (envRef st)" using assms(1) by (rule reachable_env_inv)
  have k1: "keeps water (envRef st) ?env1" using i0 by (rule spread_fire_ok(2))
  have i1: "env_inv ?env1" using i0 by (rule spread_fire_ok(1))
  from c have "keeps water ?env1 env2 \<and> env_inv env2"
    using i1 step_env_ok[OF i1] by auto
  then have k2: "keeps water ?env1 env2" and i2: "env_inv env2" by simp_all
  have "keeps water env2 (envRef st')"
    unfolding e using env_inv_wf[OF i2] by (rule reignite_keeps_water)
  with keeps_trans[OF k1 k2] show ?thesis by (rule keeps_trans)
qed

lemma water_only_after:
  assumes "reachable_env env'" "keeps water env env'" "in_bounds env x y" "water (cell_at env x y)"
  shows "water_only env' x y"
proof -
  have ib: "in_bounds env' x y" using keeps_in_bounds[OF assms(2)] assms(3) by simp
  have w: "water (cell_at env' x y)" using keeps_cell[OF assms(2,3)] assms(4) by simp
  have "water_ok env'" using reachable_env_inv[OF assms(1)] by (simp add: env_inv_def tracked_def)
  with ib w show ?thesis unfolding water_only_def water_ok_def by blast
qed

text \<open>C9: in every environment the program can produce, a water cell is not burning, not a
  tree and not burnt, and it stays so, and stays water, through \<open>ignite\<close>, \<open>spread_fire\<close>,
  \<open>extinguish_fire_at\<close>, a swarm step, the random re-ignition and a whole tick.  (Water is made
  by \<open>add_water_blobs\<close> only, which the program runs on the new grid, before any ignition.)\<close>

theorem water_never_burns:
  assumes "reachable_env env" "in_bounds env x y" "water (cell_at env x y)"
  shows "water_only env x y \<and> water_only (ignite env a b) x y \<and>
     water_only (fst (spread_fire env r)) x y \<and>
     water_only (fst (snd (extinguish_fire_at env a b dp t))) x y \<and>
     water_only (r_env (step env sw t r)) x y \<and>
     water_only (fst (reignite n env r)) x y \<and>
     (envRef st = env \<longrightarrow>
        (\<exists>st' r'. step_sim om pp pg st r = Some (st', r') \<and> water_only (envRef st') x y))"
proof -
  have inv: "env_inv env" using assms(1) by (rule reachable_env_inv)
  then have wf: "wf_env env" by (rule env_inv_wf)
  note wo = water_only_after[OF _ _ assms(2,3)]
  have "water_only env x y" using assms(1) by (rule wo) simp
  moreover have "water_only (ignite env a b) x y"
    using reachable_env.ignited[OF assms(1)] ignite_keeps_water[OF wf] by (rule wo)
  moreover have "water_only (fst (spread_fire env r)) x y"
    using reachable_env.spread[OF assms(1)] spread_fire_ok(2)[OF inv] by (rule wo)
  moreover have "water_only (fst (snd (extinguish_fire_at env a b dp t))) x y"
    using reachable_env.extinguished[OF assms(1)] extinguish_keeps_water[OF wf] by (rule wo)
  moreover have "water_only (r_env (step env sw t r)) x y"
    using reachable_env.stepped[OF assms(1)] step_env_ok(2)[OF inv] by (rule wo)
  moreover have "water_only (fst (reignite n env r)) x y"
    using reignite_reachable[OF assms(1)] reignite_keeps_water[OF wf] by (rule wo)
  moreover have "\<exists>st' r'. step_sim om pp pg st r = Some (st', r') \<and> water_only (envRef st') x y"
    if e: "envRef st = env"
  proof -
    obtain st' r' where s: "step_sim om pp pg st r = Some (st', r')"
      using step_sim_returns by blast
    have re: "reachable_env (envRef st)" using assms(1) e by simp
    have "water_only (envRef st') x y"
      using step_sim_reachable[OF re s] step_sim_keeps_water[OF re s] unfolding e by (rule wo)
    with s show ?thesis by blast
  qed
  ultimately show ?thesis by blast
qed

lemma walk_step_wet:
  assumes "wet x y (w_env s)"
  shows "wet x y (w_env (walk_step s))"
proof (cases "in_bounds (w_env s) (w_x s) (w_y s)")
  case True
  with assms show ?thesis
    by (simp add: walk_step_def Let_def wet_def cell_at_set_cell)
next
  case False
  with assms show ?thesis by (simp add: walk_step_def Let_def)
qed

lemma walk_step_wets:
  assumes "wf_env (w_env s)" "in_bounds (w_env s) (w_x s) (w_y s)"
  shows "wet (w_x s) (w_y s) (w_env (walk_step s))"
  using assms by (simp add: walk_step_def Let_def wet_def cell_at_set_cell)

lemma water_blob_wet: "wet x y (fst er) \<Longrightarrow> wet x y (fst (water_blob er))"
  unfolding water_blob_def Let_def fst_conv
  by (rule funpow_invariant[where P = "\<lambda>s. wet x y (w_env s)"]) (simp_all add: walk_step_wet)

lemma pond_wet: "wet 0 0 pond"
proof -
  let ?env = "fst (new_Environment 1 1 (sconst 0))"
  let ?r = "sconst (4 / 7) :: rng"
  let ?s0 = "\<lparr>w_env = ?env, w_x = 0, w_y = 0, w_rng = ?r\<rparr>"
  have wf: "wf_env ?env" using new_Environment_fresh[of 1 1 "sconst 0"] by (simp add: fresh_def)
  have dims: "width ?env = 1" "height ?env = 1"
    by (simp_all add: new_Environment_def split: prod.splits)
  have r: "stl ?r = ?r" "shd ?r = 4 / 7" by simp_all
  have cx: "\<lfloor>(4 / 7 :: real) * real_of_int (1 - 8)\<rfloor> + 4 = 0" by simp
  have steps: "nat (\<lfloor>(4 / 7 :: real) * 15\<rfloor> + 15) = Suc 22" by simp
  have blobs: "nat (\<lfloor>(4 / 7 :: real) * real_of_int (3 - 1)\<rfloor> + 2) = Suc 2" by simp
  have wb: "water_blob (?env, ?r) =
      (w_env ((walk_step ^^ Suc 22) ?s0), w_rng ((walk_step ^^ Suc 22) ?s0))"
    by (simp only: water_blob_def Let_def fst_conv snd_conv r dims cx steps)
  have ab: "add_water_blobs ?env 3 ?r = (water_blob ^^ Suc 2) (?env, ?r)"
    by (simp only: add_water_blobs_def Let_def r blobs)
  have "in_bounds ?env 0 0" by (simp add: in_bounds_def dims)
  then have "wet 0 0 (w_env (walk_step ?s0))"
    using walk_step_wets[of ?s0] wf by simp
  then have "wet 0 0 (w_env ((walk_step ^^ 22) (walk_step ?s0)))"
    by (rule funpow_invariant[where P = "\<lambda>s. wet 0 0 (w_env s)"]) (rule walk_step_wet)
  then have "wet 0 0 (w_env ((walk_step ^^ Suc 22) ?s0))" by (simp only: funpow_Suc_right o_apply)
  then have "wet 0 0 (fst (water_blob (?env, ?r)))" by (simp only: wb fst_conv)
  then have "wet 0 0 (fst ((water_blob ^^ 2) (water_blob (?env, ?r))))"
    by (rule funpow_invariant[where P = "\<lambda>er. wet 0 0 (fst er)"]) (rule water_blob_wet)
  then have "wet 0 0 (fst ((water_blob ^^ Suc 2) (?env, ?r)))" by (simp only: funpow_Suc_right o_apply)
  then show ?thesis by (simp only: pond_def ab)
qed

theorem water_never_burns_witness:
  "reachable_env pond \<and> in_bounds pond 0 0 \<and> water (cell_at pond 0 0) \<and>
   water_only pond 0 0 \<and> water_only (ignite pond 0 0) 0 0 \<and>
   water_only (fst (reignite 0 pond (sconst 0))) 0 0"
proof -
  have r: "reachable_env pond" unfolding pond_def by (rule reachable_env.init)
  from pond_wet have w: "in_bounds pond 0 0" "water (cell_at pond 0 0)" by (simp_all add: wet_def)
  from water_never_burns[OF r w, where a = 0 and b = 0 and n = 0 and r = "sconst 0"] r w
  show ?thesis by simp
qed

subsection \<open>Claim on the positions\<close>

lemma move_drone_length:
  "length (positions (fst (move_drone env i sr))) = length (positions (fst sr))"
  by (simp add: move_drone_def Let_def)

lemma move_drone_other:
  "j \<noteq> i \<Longrightarrow> positions (fst (move_drone env i sr)) ! j = positions (fst sr) ! j"
  by (simp add: move_drone_def Let_def)

lemma move_drone_self:
  assumes "1 \<le> width env" "1 \<le> height env" "i < length (positions (fst sr))"
  shows "pos_ok env (positions (fst (move_drone env i sr)) ! i)"
  using assms by (simp add: move_drone_def Let_def pos_ok_def)

lemma move_drone_pos_ok:
  assumes "1 \<le> width env" "1 \<le> height env" "i < length (positions (fst sr))"
    and "\<forall>j \<in> A. pos_ok env (positions (fst sr) ! j)"
  shows "\<forall>j \<in> insert i A. pos_ok env (positions (fst (move_drone env i sr)) ! j)"
proof
  fix j assume j: "j \<in> insert i A"
  show "pos_ok env (positions (fst (move_drone env i sr)) ! j)"
  proof (cases "j = i")
    case True
    then show ?thesis using move_drone_self[OF assms(1-3)] by simp
  next
    case False
    with j assms(4) show ?thesis by (simp add: move_drone_other)
  qed
qed

lemma fold_move_drone_pos_ok:
  assumes "1 \<le> width env" "1 \<le> height env"
  shows "\<forall>i \<in> set js. i < length (positions (fst sr)) \<Longrightarrow>
     \<forall>j \<in> A. pos_ok env (positions (fst sr) ! j) \<Longrightarrow>
     \<forall>j \<in> A \<union> set js. pos_ok env (positions (fst (fold (move_drone env) js sr)) ! j)"
proof (induction js arbitrary: sr A)
  case Nil
  then show ?case by simp
next
  case (Cons i js)
  from Cons.prems(1) have i: "i < length (positions (fst sr))" by simp
  have "\<forall>j \<in> insert i A \<union> set js.
      pos_ok env (positions (fst (fold (move_drone env) js (move_drone env i sr))) ! j)"
  proof (rule Cons.IH)
    show "\<forall>k \<in> set js. k < length (positions (fst (move_drone env i sr)))"
      using Cons.prems(1) by (simp add: move_drone_length)
    show "\<forall>j \<in> insert i A. pos_ok env (positions (fst (move_drone env i sr)) ! j)"
      using assms i Cons.prems(2) by (rule move_drone_pos_ok)
  qed
  then show ?case by simp
qed

lemma move_pass_pos_ok:
  assumes "1 \<le> width env" "1 \<le> height env" "length (positions sw) = num_drones sw"
    and "i < num_drones sw"
  shows "pos_ok env (positions (fst (move_pass env sw r)) ! i)"
proof -
  have "\<forall>j \<in> {} \<union> set [0..<num_drones sw].
      pos_ok env (positions (fst (fold (move_drone env) [0..<num_drones sw] (sw, r))) ! j)"
    using assms(1,2) by (rule fold_move_drone_pos_ok) (simp_all add: assms(3))
  with assms(4) show ?thesis by (simp add: move_pass_def)
qed

lemma update_best_positions: "positions (update_best env i sw) = positions sw"
  by (simp add: update_best_def Let_def)

lemma best_pass_positions: "positions (best_pass env sw) = positions sw"
  unfolding best_pass_def
  by (rule fold_invariant[where P = "\<lambda>sw'. positions sw' = positions sw"])
    (simp_all add: update_best_positions)

lemma step_positions: "positions (r_swarm (step env sw t r)) = positions (fst (move_pass env sw r))"
proof -
  have "positions (r_swarm (step env sw t r)) = positions (best_pass env (fst (move_pass env sw r)))"
    unfolding step_swarm by (rule motion_positions) (rule suppress_pass_motion)
  then show ?thesis by (simp add: best_pass_positions)
qed

lemma pos_ok_in_bounds:
  assumes "pos_ok env p"
  shows "in_bounds env \<lfloor>fst p\<rfloor> \<lfloor>snd p\<rfloor>"
proof -
  from assms have "\<lfloor>fst p\<rfloor> \<le> \<lfloor>real_of_int (width env - 1)\<rfloor>"
    "\<lfloor>snd p\<rfloor> \<le> \<lfloor>real_of_int (height env - 1)\<rfloor>"
    by (simp_all only: pos_ok_def floor_mono)
  then have "\<lfloor>fst p\<rfloor> \<le> width env - 1" "\<lfloor>snd p\<rfloor> \<le> height env - 1"
    by (simp_all only: floor_of_int)
  moreover from assms have "0 \<le> \<lfloor>fst p\<rfloor>" "0 \<le> \<lfloor>snd p\<rfloor>" by (simp_all add: pos_ok_def)
  ultimately show ?thesis by (simp add: in_bounds_def)
qed

lemma random_pairs_mem:
  "p \<in> set (fst (random_pairs n f g r)) \<Longrightarrow> \<exists>u \<in> sset r. \<exists>v \<in> sset r. p = (f u, g v)"
proof (induction n arbitrary: r)
  case 0
  then show ?case by simp
next
  case (Suc n)
  obtain ps r' where rp: "random_pairs n f g (stl (stl r)) = (ps, r')"
    by (cases "random_pairs n f g (stl (stl r))")
  from Suc.prems rp have "p = (f (shd r), g (shd (stl r))) \<or> p \<in> set ps" by (simp add: Let_def)
  then show ?case
  proof
    assume "p = (f (shd r), g (shd (stl r)))"
    moreover have "shd r \<in> sset r" "shd (stl r) \<in> sset r"
      by (simp_all add: shd_sset stl_sset)
    ultimately show ?thesis by blast
  next
    assume "p \<in> set ps"
    with rp have "p \<in> set (fst (random_pairs n f g (stl (stl r))))" by simp
    from Suc.IH[OF this] obtain u v where
      uv: "u \<in> sset (stl (stl r))" "v \<in> sset (stl (stl r))" "p = (f u, g v)" by blast
    from uv(1) have "u \<in> sset r" by (rule stl_sset[OF stl_sset])
    moreover from uv(2) have "v \<in> sset r" by (rule stl_sset[OF stl_sset])
    ultimately show ?thesis using uv(3) by blast
  qed
qed

lemma new_DroneSwarm_positions:
  assumes "new_DroneSwarm env n r = Some (sw, r')"
  shows "positions sw = fst (random_pairs n (\<lambda>u. u * real_of_int (width env - 1))
                                (\<lambda>u. u * real_of_int (height env - 1)) r)"
    and "num_drones sw = n"
  using assms by (auto simp: new_DroneSwarm_def Let_def split: prod.splits option.splits)

lemma scaled_draw_ok:
  assumes "0 \<le> u" "u < 1" "1 \<le> w"
  shows "0 \<le> u * real_of_int (w - 1) \<and> u * real_of_int (w - 1) \<le> real_of_int (w - 1)"
proof -
  from assms(3) have "0 \<le> real_of_int (w - 1)" by simp
  with assms(1,2) show ?thesis by (simp add: mult_left_le_one_le)
qed

text \<open>C10: on a grid with at least one row and one column, every position of a new swarm
  (with draws in \<open>[0, 1)\<close>) and every position after a step lies in
  \<open>[0, width - 1] \<times> [0, height - 1]\<close>, so its floor is inside the grid: the out-of-bounds
  test of the suppression pass and of \<open>fitness\<close> (the \<open>1e6\<close> penalty) is false for it.  The
  positions that \<open>step\<close> returns are those at which it has evaluated \<open>fitness\<close> and scanned.\<close>

theorem positions_stay_in_bounds:
  assumes "1 \<le> width env" "1 \<le> height env"
  shows "(new_DroneSwarm env n r = Some (sw0, r') \<and> (\<forall>u \<in> sset r. 0 \<le> u \<and> u < 1) \<and> i < n \<longrightarrow>
       length (positions sw0) = num_drones sw0 \<and> pos_ok env (positions sw0 ! i) \<and>
       in_bounds env \<lfloor>fst (positions sw0 ! i)\<rfloor> \<lfloor>snd (positions sw0 ! i)\<rfloor>) \<and>
     (length (positions sw) = num_drones sw \<and> i < num_drones sw \<longrightarrow>
       positions (r_swarm (step env sw t r)) = positions (fst (move_pass env sw r)) \<and>
       length (positions (r_swarm (step env sw t r))) = num_drones sw \<and>
       pos_ok env (positions (r_swarm (step env sw t r)) ! i) \<and>
       in_bounds env \<lfloor>fst (positions (r_swarm (step env sw t r)) ! i)\<rfloor>
                     \<lfloor>snd (positions (r_swarm (step env sw t r)) ! i)\<rfloor>)"
proof (intro conjI impI)
  assume a: "new_DroneSwarm env n r = Some (sw0, r') \<and> (\<forall>u \<in> sset r. 0 \<le> u \<and> u < 1) \<and> i < n"
  let ?f = "\<lambda>u. u * real_of_int (width env - 1)" and ?g = "\<lambda>u. u * real_of_int (height env - 1)"
  from a have c: "new_DroneSwarm env n r = Some (sw0, r')" by simp
  have ps: "positions sw0 = fst (random_pairs n ?f ?g r)" and n: "num_drones sw0 = n"
    using new_DroneSwarm_positions[OF c] by simp_all
  then show len: "length (positions sw0) = num_drones sw0" by (simp add: random_pairs_length)
  with a n have "positions sw0 ! i \<in> set (fst (random_pairs n ?f ?g r))"
    unfolding ps[symmetric] by simp
  from random_pairs_mem[OF this] obtain u v
    where uv: "u \<in> sset r" "v \<in> sset r" "positions sw0 ! i = (?f u, ?g v)" by blast
  with a have "0 \<le> u \<and> u < 1" "0 \<le> v \<and> v < 1" by simp_all
  with scaled_draw_ok[of u "width env"] scaled_draw_ok[of v "height env"] assms uv(3)
  show ok: "pos_ok env (positions sw0 ! i)" by (simp add: pos_ok_def)
  then show "in_bounds env \<lfloor>fst (positions sw0 ! i)\<rfloor> \<lfloor>snd (positions sw0 ! i)\<rfloor>"
    by (rule pos_ok_in_bounds)
next
  assume b: "length (positions sw) = num_drones sw \<and> i < num_drones sw"
  show sp: "positions (r_swarm (step env sw t r)) = positions (fst (move_pass env sw r))"
    by (rule step_positions)
  have "length (positions (fst (move_pass env sw r))) = length (positions sw)"
    unfolding move_pass_def
    by (rule fold_invariant[where P = "\<lambda>sr. length (positions (fst sr)) = length (positions sw)"])
      (simp_all add: move_drone_length)
  with b show "length (positions (r_swarm (step env sw t r))) = num_drones sw" by (simp add: sp)
  from b show ok: "pos_ok env (positions (r_swarm (step env sw t r)) ! i)"
    unfolding sp by (intro move_pass_pos_ok assms) simp_all
  then show "in_bounds env \<lfloor>fst (positions (r_swarm (step env sw t r)) ! i)\<rfloor>
                     \<lfloor>snd (positions (r_swarm (step env sw t r)) ! i)\<rfloor>"
    by (rule pos_ok_in_bounds)
qed

theorem positions_stay_in_bounds_witness:
  "1 \<le> width env_1x3 \<and> 1 \<le> height env_1x3 \<and>
   length (positions one_drone) = num_drones one_drone \<and> 0 < num_drones one_drone \<and>
   in_bounds env_1x3 \<lfloor>fst (positions (r_swarm (step env_1x3 one_drone (Some 0) (sconst 0))) ! 0)\<rfloor>
                     \<lfloor>snd (positions (r_swarm (step env_1x3 one_drone (Some 0) (sconst 0))) ! 0)\<rfloor> \<and>
   (\<exists>sw0 r'. new_DroneSwarm env_1x3 1 (sconst (1 / 2)) = Some (sw0, r') \<and>
      (\<forall>u \<in> sset (sconst (1 / 2 :: real)). 0 \<le> u \<and> u < 1) \<and>
      pos_ok env_1x3 (positions sw0 ! 0))"
proof -
  have d: "1 \<le> width env_1x3" "1 \<le> height env_1x3" by (simp_all add: env_1x3_def)
  have l: "length (positions one_drone) = num_drones one_drone" "0 < num_drones one_drone"
    by (simp_all add: one_drone_def)
  have u: "\<forall>u \<in> sset (sconst (1 / 2 :: real)). 0 \<le> u \<and> u < 1" by simp
  obtain sw0 r' where n: "new_DroneSwarm env_1x3 1 (sconst (1 / 2)) = Some (sw0, r')"
    using new_DroneSwarm_returns[of 1 env_1x3 "sconst (1 / 2)"] by auto
  from positions_stay_in_bounds[OF d, where n = 1 and r = "sconst (1 / 2)" and ?sw0.0 = sw0
      and r' = r' and i = 0 and sw = one_drone] n u
  have "pos_ok env_1x3 (positions sw0 ! 0)" by simp
  moreover from positions_stay_in_bounds[OF d, where sw = one_drone and i = 0 and t = "Some 0"
      and r = "sconst 0" and n = 1 and ?sw0.0 = one_drone and r' = "sconst 0"] l
  have "in_bounds env_1x3 \<lfloor>fst (positions (r_swarm (step env_1x3 one_drone (Some 0) (sconst 0))) ! 0)\<rfloor>
                     \<lfloor>snd (positions (r_swarm (step env_1x3 one_drone (Some 0) (sconst 0))) ! 0)\<rfloor>"
    by blast
  ultimately show ?thesis using d l u n by blast
qed

subsection \<open>Claim on the position passed to extinguish\<close>

lemma one_drone_move:
  "move_pass env_1x3 one_drone (sconst 0) =
     (one_drone\<lparr>velocities := [(2, 0)], positions := [(2, 0)]\<rparr>, sconst 0)"
  by (simp add: move_pass_def move_drone_def Let_def one_drone_def env_1x3_def)

lemma one_drone_fitness: "fitness env_1x3 (2, 0) = Infinity"
  by (simp add: fitness_def get_attraction_matrix_def attraction_def cell_at_def env_1x3_def
      new_Cell_def Let_def positions_of_kind_def min_dist_def upto.simps[of 0 2] upto.simps[of 1 2])

lemma one_drone_best:
  "best_pass env_1x3 (one_drone\<lparr>velocities := [(2, 0)], positions := [(2, 0)]\<rparr>)
     = one_drone\<lparr>velocities := [(2, 0)], positions := [(2, 0)]\<rparr>"
  by (simp add: best_pass_def update_best_def Let_def one_drone_fitness one_drone_def)

lemma one_drone_suppress:
  "ext_calls (suppress_pass env_1x3 (one_drone\<lparr>velocities := [(2, 0)], positions := [(2, 0)]\<rparr>) (Some 0))
     = [call_from (2, 0) (1, -1) False, call_from (2, 0) (1, 0) False, call_from (2, 0) (1, 1) False,
        call_from (2, 0) (2, -1) False, call_from (2, 0) (2, 0) True, call_from (2, 0) (2, 1) False,
        call_from (2, 0) (3, -1) False, call_from (2, 0) (3, 0) False, call_from (2, 0) (3, 1) False]"
  "p_clock (suppress_pass env_1x3 (one_drone\<lparr>velocities := [(2, 0)], positions := [(2, 0)]\<rparr>) (Some 0))
     = Some 40"
  "water_left (p_swarm (suppress_pass env_1x3
      (one_drone\<lparr>velocities := [(2, 0)], positions := [(2, 0)]\<rparr>) (Some 0))) = [2]"
  by (simp_all add: suppress_pass_def suppress_drone_def scan_neighborhood_def offsets_def
      scan_cell_def extinguish_fire_at_def Let_def one_drone_def env_1x3_def in_bounds_def
      cell_at_def set_cell_def new_Cell_def travel_time_def EXTINGUISH_TIME_def call_from_def)

lemma one_drone_step:
  "r_calls (step env_1x3 one_drone (Some 0) (sconst 0))
     = [call_from (2, 0) (1, -1) False, call_from (2, 0) (1, 0) False, call_from (2, 0) (1, 1) False,
        call_from (2, 0) (2, -1) False, call_from (2, 0) (2, 0) True, call_from (2, 0) (2, 1) False,
        call_from (2, 0) (3, -1) False, call_from (2, 0) (3, 0) False, call_from (2, 0) (3, 1) False]"
  "r_clock (step env_1x3 one_drone (Some 0) (sconst 0)) = Some 40"
  "water_left (r_swarm (step env_1x3 one_drone (Some 0) (sconst 0))) = [2]"
  by (simp_all add: step_def Let_def one_drone_move one_drone_best one_drone_suppress)

text \<open>C2 (as the code has it): every call of \<open>extinguish_fire_at\<close> made by a swarm step is
  passed the floor of the position that its drone has after the velocity and position update
  of this step, which is the position the drone has when the step returns.\<close>

theorem extinguish_gets_moved_position:
  assumes "c \<in> set (r_calls (step env sw t r))"
  shows "c_drone_pos c = (\<lfloor>fst (positions (fst (move_pass env sw r)) ! c_drone c)\<rfloor>,
                          \<lfloor>snd (positions (fst (move_pass env sw r)) ! c_drone c)\<rfloor>) \<and>
     positions (r_swarm (step env sw t r)) = positions (fst (move_pass env sw r))"
proof -
  let ?sw2 = "best_pass env (fst (move_pass env sw r))"
  have "r_calls (step env sw t r) = ext_calls (suppress_pass env ?sw2 t)"
    by (simp add: step_def Let_def split: prod.splits)
  with assms suppress_pass_calls_ok[of ?sw2 env t]
  have "c_drone_pos c = floor_pos (positions ?sw2 ! c_drone c)"
    by (simp add: supp_calls_ok_def)
  then show ?thesis by (simp add: floor_pos_def best_pass_positions step_positions)
qed

theorem extinguish_gets_moved_position_witness:
  "call_from (2, 0) (2, 0) True \<in> set (r_calls (step env_1x3 one_drone (Some 0) (sconst 0))) \<and>
   c_drone_pos (call_from (2, 0) (2, 0) True) =
     (\<lfloor>fst (positions (fst (move_pass env_1x3 one_drone (sconst 0))) ! 0)\<rfloor>,
      \<lfloor>snd (positions (fst (move_pass env_1x3 one_drone (sconst 0))) ! 0)\<rfloor>)"
proof -
  have m: "call_from (2, 0) (2, 0) True \<in> set (r_calls (step env_1x3 one_drone (Some 0) (sconst 0)))"
    by (simp add: one_drone_step)
  from extinguish_gets_moved_position[OF m] m show ?thesis by (simp add: call_from_def)
qed

text \<open>The drone starts in cell \<open>(0, 0)\<close> with water for three suppressions and flies to
  \<open>(2, 0)\<close>.  Its fifth call, on the burning cell \<open>(2, 0)\<close>, is passed \<open>(2, 0)\<close>, not the
  cell \<open>(0, 0)\<close> it came from, and the clock advances by 40, not by 42.\<close>

theorem pre_movement_position_counterexample:
  "water_left one_drone ! 0 = 3 \<and>
   \<lfloor>fst (positions one_drone ! 0)\<rfloor> = 0 \<and> \<lfloor>snd (positions one_drone ! 0)\<rfloor> = 0 \<and>
   r_calls (step env_1x3 one_drone (Some 0) (sconst 0)) ! 4 =
     \<lparr>c_drone = 0, c_target = (2, 0), c_drone_pos = (2, 0), c_result = True\<rparr> \<and>
   r_clock (step env_1x3 one_drone (Some 0) (sconst 0)) = Some 40"
  by (simp add: one_drone_step call_from_def) (simp add: one_drone_def)

subsection \<open>Claim on the water of a drone\<close>

lemma successes_append [simp]: "successes i (cs @ ds) = successes i cs + successes i ds"
  by (simp add: successes_def)

lemma successes_single [simp]:
  "successes i [c] = (if c_drone c = i \<and> c_result c then 1 else 0)"
  by (simp add: successes_def)

lemma successes_Nil [simp]: "successes i [] = 0"
  by (simp add: successes_def)

lemma extinguish_wf:
  "wf_env env \<Longrightarrow> wf_env (fst (snd (extinguish_fire_at env x y dp t)))"
  by (simp add: extinguish_fire_at_def Let_def)

lemma scan_cell_swarm:
  "p_swarm (scan_cell i x y dx dy s) =
     (if fst (extinguish_fire_at (p_env s) (x + dx) (y + dy) (Some (x, y)) (p_clock s))
      then (p_swarm s)\<lparr>water_left := (water_left (p_swarm s))[i := water_left (p_swarm s) ! i - 1]\<rparr>
      else p_swarm s)"
  by (simp add: scan_cell_def Let_def split: prod.splits)

lemma scan_ok_refl:
  "wf_env (p_env s) \<Longrightarrow> scan_ok i s (s\<lparr>extinguished_local := 0\<rparr>)"
  by (simp add: scan_ok_def)

lemma scan_cell_ok:
  assumes "scan_ok i s0 s" "i < length (water_left (p_swarm s0))" "0 < water_left (p_swarm s) ! i"
  shows "scan_ok i s0 (scan_cell i x y dx dy s)"
proof -
  let ?s' = "scan_cell i x y dx dy s"
  let ?ok = "fst (extinguish_fire_at (p_env s) (x + dx) (y + dy) (Some (x, y)) (p_clock s))"
  from assms(1) have wf: "wf_env (p_env s)" and kw: "keeps water (p_env s0) (p_env s)"
    and len: "length (water_left (p_swarm s)) = length (water_left (p_swarm s0))"
    by (simp_all add: scan_ok_def)
  have i: "i < length (water_left (p_swarm s))" using assms(2) len by simp
  have e1: "wf_env (p_env ?s')" unfolding scan_cell_env using wf by (rule extinguish_wf)
  have "keeps water (p_env s) (p_env ?s')"
    unfolding scan_cell_env using wf by (rule extinguish_keeps_water)
  with kw have e2: "keeps water (p_env s0) (p_env ?s')" by (rule keeps_trans)
  have c: "ext_calls ?s' = ext_calls s @
      [\<lparr>c_drone = i, c_target = (x + dx, y + dy), c_drone_pos = (x, y), c_result = ?ok\<rparr>]"
    by (rule scan_cell_calls)
  show ?thesis
  proof (cases ?ok)
    case True
    then have sw: "p_swarm ?s' = (p_swarm s)\<lparr>water_left :=
        (water_left (p_swarm s))[i := water_left (p_swarm s) ! i - 1]\<rparr>"
      by (simp add: scan_cell_swarm)
    from assms(1,3) i e1 e2 True show ?thesis
      unfolding scan_ok_def sw c by (simp add: motion_def)
  next
    case False
    then have sw: "p_swarm ?s' = p_swarm s" by (simp add: scan_cell_swarm)
    from assms(1) e1 e2 False show ?thesis
      unfolding scan_ok_def sw c by auto
  qed
qed

lemma scan_neighborhood_ok:
  assumes "wf_env (p_env s)" "i < length (water_left (p_swarm s))"
  shows "scan_ok i s (scan_neighborhood i x y s)"
proof (rule scan_neighborhood_invariant[where P = "scan_ok i s"])
  show "scan_ok i s (s\<lparr>extinguished_local := 0\<rparr>)" using assms(1) by (rule scan_ok_refl)
next
  fix s' :: supp_state and dx dy
  assume "scan_ok i s s'" "0 < water_left (p_swarm s') ! i"
  then show "scan_ok i s (scan_cell i x y dx dy s')" using assms(2) by (intro scan_cell_ok)
qed

lemma suppress_drone_refill:
  assumes "water_left (p_swarm s) ! j = 0"
    and "in_bounds (p_env s) \<lfloor>fst (positions (p_swarm s) ! j)\<rfloor> \<lfloor>snd (positions (p_swarm s) ! j)\<rfloor>"
    and "water (cell_at (p_env s) \<lfloor>fst (positions (p_swarm s) ! j)\<rfloor>
                                   \<lfloor>snd (positions (p_swarm s) ! j)\<rfloor>)"
  shows "suppress_drone j s =
     (if refill_timers (p_swarm s) ! j + 1 \<ge> REFILL_TIME
      then s\<lparr>p_swarm := (p_swarm s)\<lparr>
              water_left := (water_left (p_swarm s))[j := MAX_WATER_CAPACITY],
              refill_timers := (refill_timers (p_swarm s))[j := 0]\<rparr>\<rparr>
      else s\<lparr>p_swarm := (p_swarm s)\<lparr>
              refill_timers := (refill_timers (p_swarm s))[j := refill_timers (p_swarm s) ! j + 1]\<rparr>\<rparr>)"
  using assms by (simp add: suppress_drone_def Let_def in_bounds_def)

lemma suppress_drone_grounded:
  assumes "water_left (p_swarm s) ! j = 0"
    and "\<not> (in_bounds (p_env s) \<lfloor>fst (positions (p_swarm s) ! j)\<rfloor> \<lfloor>snd (positions (p_swarm s) ! j)\<rfloor>
           \<and> water (cell_at (p_env s) \<lfloor>fst (positions (p_swarm s) ! j)\<rfloor>
                                       \<lfloor>snd (positions (p_swarm s) ! j)\<rfloor>))"
  shows "suppress_drone j s = s"
  using assms by (auto simp: suppress_drone_def Let_def in_bounds_def)

lemma suppress_drone_scan:
  assumes "water_left (p_swarm s) ! j \<noteq> 0"
  shows "suppress_drone j s =
     (if in_bounds (p_env s) \<lfloor>fst (positions (p_swarm s) ! j)\<rfloor> \<lfloor>snd (positions (p_swarm s) ! j)\<rfloor>
      then scan_neighborhood j \<lfloor>fst (positions (p_swarm s) ! j)\<rfloor>
                               \<lfloor>snd (positions (p_swarm s) ! j)\<rfloor> s
      else s)"
  using assms by (auto simp: suppress_drone_def Let_def in_bounds_def)

lemma others_kept_refl: "wf_env (p_env s) \<Longrightarrow> others_kept j s s"
  by (simp add: others_kept_def)

lemma suppress_drone_others:
  assumes "wf_env (p_env s)" "j < length (water_left (p_swarm s))"
  shows "others_kept j s (suppress_drone j s)"
proof -
  let ?sw = "p_swarm s"
  have scan: "others_kept j s (scan_neighborhood j x y s)" for x y
    using scan_neighborhood_ok[OF assms, of x y] by (simp add: scan_ok_def others_kept_def)
  have a: "others_kept j s (s\<lparr>p_swarm := ?sw\<lparr>water_left := (water_left ?sw)[j := a],
      refill_timers := (refill_timers ?sw)[j := b]\<rparr>\<rparr>)" for a b
    using assms(1) by (simp add: others_kept_def motion_def)
  have b: "others_kept j s (s\<lparr>p_swarm := ?sw\<lparr>refill_timers := (refill_timers ?sw)[j := b]\<rparr>\<rparr>)" for b
    using assms(1) by (simp add: others_kept_def motion_def)
  from suppress_drone_cases[of j s] scan a b others_kept_refl[OF assms(1), of j]
  show ?thesis by (elim disjE conjE) simp_all
qed

lemma suppress_drone_outcome:
  assumes "wf_env (p_env s)" "j < length (water_left (p_swarm s))"
    and "j < length (refill_timers (p_swarm s))" "drone_ok (p_swarm s) j"
    and "keeps water env0 (p_env s)" "successes j (ext_calls s) = 0"
  shows "water_outcome env0 (p_swarm s) j (water_left (p_swarm (suppress_drone j s)) ! j)
     (refill_timers (p_swarm (suppress_drone j s)) ! j) (successes j (ext_calls (suppress_drone j s)))"
proof -
  let ?sw = "p_swarm s"
  let ?x = "\<lfloor>fst (positions ?sw ! j)\<rfloor>" and ?y = "\<lfloor>snd (positions ?sw ! j)\<rfloor>"
  let ?w = "water_left ?sw ! j" and ?tm = "refill_timers ?sw ! j"
  have ib: "in_bounds (p_env s) ?x ?y = in_bounds env0 ?x ?y"
    using assms(5) by (rule keeps_in_bounds)
  have wt: "water (cell_at (p_env s) ?x ?y) = water (cell_at env0 ?x ?y)" if "in_bounds env0 ?x ?y"
    using assms(5) that by (rule keeps_cell)
  from assms(4) have ok: "0 \<le> ?w" "?w \<le> MAX_WATER_CAPACITY" "0 \<le> ?tm" "?tm < REFILL_TIME"
    "0 < ?w \<longrightarrow> ?tm = 0" by (simp_all add: drone_ok_def)
  show ?thesis
  proof (cases "?w = 0")
    case True
    show ?thesis
    proof (cases "in_bounds env0 ?x ?y \<and> water (cell_at env0 ?x ?y)")
      case on: True
      with ib wt have "in_bounds (p_env s) ?x ?y" "water (cell_at (p_env s) ?x ?y)" by simp_all
      note eq = suppress_drone_refill[OF True this]
      show ?thesis
      proof (cases "?tm + 1 \<ge> REFILL_TIME")
        case full: True
        with ok(4) have "?tm + 1 = REFILL_TIME" by simp
        with True on full assms(2,3,6) show ?thesis
          by (simp add: eq water_outcome_def Let_def MAX_WATER_CAPACITY_def REFILL_TIME_def)
      next
        case False
        with True on ok assms(2,3,6) show ?thesis
          by (simp add: eq water_outcome_def Let_def MAX_WATER_CAPACITY_def REFILL_TIME_def)
      qed
    next
      case off: False
      with ib wt have "\<not> (in_bounds (p_env s) ?x ?y \<and> water (cell_at (p_env s) ?x ?y))" by auto
      note eq = suppress_drone_grounded[OF True this]
      from True off ok assms(6) show ?thesis
        by (auto simp: eq water_outcome_def Let_def MAX_WATER_CAPACITY_def REFILL_TIME_def)
    qed
  next
    case False
    with ok have pos: "0 < ?w" and tm0: "?tm = 0" by simp_all
    note eq = suppress_drone_scan[OF False]
    show ?thesis
    proof (cases "in_bounds (p_env s) ?x ?y")
      case True
      let ?s' = "scan_neighborhood j ?x ?y s"
      have so: "scan_ok j s ?s'" using assms(1,2) by (rule scan_neighborhood_ok)
      have f1: "refill_timers (p_swarm ?s') = refill_timers ?sw"
        using so unfolding scan_ok_def by blast
      have f2: "water_left (p_swarm ?s') ! j
          = ?w - (successes j (ext_calls ?s') - successes j (ext_calls s))"
        using so unfolding scan_ok_def by blast
      have f3: "successes j (ext_calls s) \<le> successes j (ext_calls ?s')"
        using so unfolding scan_ok_def by blast
      have "0 \<le> ?w \<longrightarrow> 0 \<le> water_left (p_swarm ?s') ! j"
        using so unfolding scan_ok_def by blast
      with ok(1) have f4: "0 \<le> water_left (p_swarm ?s') ! j" by simp
      from f2 f3 assms(6) have f5: "water_left (p_swarm ?s') ! j = ?w - successes j (ext_calls ?s')"
        "0 \<le> successes j (ext_calls ?s')" "water_left (p_swarm ?s') ! j \<le> ?w" by simp_all
      from True pos tm0 ok(2) f1 f4 f5 show ?thesis
        by (simp add: eq water_outcome_def Let_def REFILL_TIME_def)
    next
      case False
      with pos tm0 ok assms(6) show ?thesis
        by (simp add: eq water_outcome_def Let_def REFILL_TIME_def)
    qed
  qed
qed

lemma water_outcome_cong:
  assumes "water_left sw ! i = water_left sw' ! i" "refill_timers sw ! i = refill_timers sw' ! i"
    and "positions sw = positions sw'"
  shows "water_outcome env sw i w' tm' k = water_outcome env sw' i w' tm' k"
  using assms by (simp add: water_outcome_def)

lemma suppress_drone_pass_ok:
  assumes "pass_ok env0 sw0 D s" "j \<notin> D" "j < length (water_left sw0)"
    and "j < length (refill_timers sw0)" "drone_ok sw0 j"
  shows "pass_ok env0 sw0 (insert j D) (suppress_drone j s)"
proof -
  let ?s' = "suppress_drone j s"
  from assms(1) have
    l1: "length (water_left (p_swarm s)) = length (water_left sw0)" and
    l2: "length (refill_timers (p_swarm s)) = length (refill_timers sw0)" and
    m: "motion (p_swarm s) = motion sw0" and wf: "wf_env (p_env s)" and
    kw: "keeps water env0 (p_env s)" and
    dn: "\<forall>i \<in> D. water_outcome env0 sw0 i (water_left (p_swarm s) ! i)
                  (refill_timers (p_swarm s) ! i) (successes i (ext_calls s))" and
    pend: "\<forall>i. i \<notin> D \<longrightarrow> water_left (p_swarm s) ! i = water_left sw0 ! i \<and>
                      refill_timers (p_swarm s) ! i = refill_timers sw0 ! i \<and>
                      successes i (ext_calls s) = 0"
    unfolding pass_ok_def by blast+
  from pend assms(2) have pj: "water_left (p_swarm s) ! j = water_left sw0 ! j"
    "refill_timers (p_swarm s) ! j = refill_timers sw0 ! j" "successes j (ext_calls s) = 0"
    by blast+
  from m have pos: "positions (p_swarm s) = positions sw0" by (rule motion_positions)
  have dk: "drone_ok (p_swarm s) j" using assms(5) pj by (simp add: drone_ok_def)
  have j1: "j < length (water_left (p_swarm s))" "j < length (refill_timers (p_swarm s))"
    using assms(3,4) l1 l2 by simp_all
  have "water_outcome env0 (p_swarm s) j (water_left (p_swarm ?s') ! j)
      (refill_timers (p_swarm ?s') ! j) (successes j (ext_calls ?s'))"
    using wf j1 dk kw pj(3) by (rule suppress_drone_outcome)
  then have oj: "water_outcome env0 sw0 j (water_left (p_swarm ?s') ! j)
      (refill_timers (p_swarm ?s') ! j) (successes j (ext_calls ?s'))"
    using water_outcome_cong[OF pj(1,2) pos] by simp
  have "others_kept j s ?s'" using wf j1(1) by (rule suppress_drone_others)
  then have
    k1: "length (water_left (p_swarm ?s')) = length (water_left (p_swarm s))" and
    k2: "length (refill_timers (p_swarm ?s')) = length (refill_timers (p_swarm s))" and
    k3: "motion (p_swarm ?s') = motion (p_swarm s)" and k4: "wf_env (p_env ?s')" and
    k5: "keeps water (p_env s) (p_env ?s')" and
    k6: "\<forall>i. i \<noteq> j \<longrightarrow> water_left (p_swarm ?s') ! i = water_left (p_swarm s) ! i \<and>
                      refill_timers (p_swarm ?s') ! i = refill_timers (p_swarm s) ! i \<and>
                      successes i (ext_calls ?s') = successes i (ext_calls s)"
    unfolding others_kept_def by blast+
  have d': "water_outcome env0 sw0 i (water_left (p_swarm ?s') ! i)
      (refill_timers (p_swarm ?s') ! i) (successes i (ext_calls ?s'))" if "i \<in> insert j D" for i
  proof (cases "i = j")
    case True
    with oj show ?thesis by simp
  next
    case False
    with that have "i \<in> D" by simp
    with dn k6 False show ?thesis by simp
  qed
  have p': "water_left (p_swarm ?s') ! i = water_left sw0 ! i \<and>
      refill_timers (p_swarm ?s') ! i = refill_timers sw0 ! i \<and>
      successes i (ext_calls ?s') = 0" if "i \<notin> insert j D" for i
    using that pend k6 by simp
  from keeps_trans[OF kw k5] k1 k2 k3 k4 l1 l2 m d' p' show ?thesis
    unfolding pass_ok_def by simp
qed

lemma fold_suppress_drone_pass_ok:
  "pass_ok env0 sw0 D s \<Longrightarrow> distinct js \<Longrightarrow> set js \<inter> D = {} \<Longrightarrow>
   \<forall>j \<in> set js. j < length (water_left sw0) \<and> j < length (refill_timers sw0) \<and> drone_ok sw0 j \<Longrightarrow>
   pass_ok env0 sw0 (D \<union> set js) (fold suppress_drone js s)"
proof (induction js arbitrary: D s)
  case Nil
  then show ?case by simp
next
  case (Cons j js)
  from Cons.prems have "pass_ok env0 sw0 (insert j D) (suppress_drone j s)"
    by (intro suppress_drone_pass_ok) auto
  moreover from Cons.prems have "distinct js" "set js \<inter> insert j D = {}" by auto
  moreover from Cons.prems have "\<forall>k \<in> set js. k < length (water_left sw0) \<and>
      k < length (refill_timers sw0) \<and> drone_ok sw0 k" by simp
  ultimately have "pass_ok env0 sw0 (insert j D \<union> set js) (fold suppress_drone js (suppress_drone j s))"
    by (rule Cons.IH)
  then show ?case by simp
qed

lemma suppress_pass_water:
  assumes "wf_env env" "water_inv sw"
  shows "pass_ok env sw {..<num_drones sw} (suppress_pass env sw t)"
proof -
  let ?s0 = "\<lparr>p_env = env, p_swarm = sw, p_clock = t, extinguished_count = 0,
        extinguished_local = 0, ext_calls = []\<rparr>"
  have "pass_ok env sw {} ?s0" using assms(1) by (simp add: pass_ok_def)
  then have "pass_ok env sw ({} \<union> set [0..<num_drones sw]) (fold suppress_drone [0..<num_drones sw] ?s0)"
    using assms(2) by (intro fold_suppress_drone_pass_ok) (simp_all add: water_inv_def)
  moreover have "{} \<union> set [0..<num_drones sw] = {..<num_drones sw}" by auto
  ultimately show ?thesis by (simp only: suppress_pass_def)
qed

lemma move_drone_water:
  "water_left (fst (move_drone env i sr)) = water_left (fst sr) \<and>
   refill_timers (fst (move_drone env i sr)) = refill_timers (fst sr) \<and>
   num_drones (fst (move_drone env i sr)) = num_drones (fst sr)"
  by (simp add: move_drone_def Let_def)

lemma move_pass_water:
  "water_left (fst (move_pass env sw r)) = water_left sw \<and>
   refill_timers (fst (move_pass env sw r)) = refill_timers sw \<and>
   num_drones (fst (move_pass env sw r)) = num_drones sw"
  unfolding move_pass_def
  by (rule fold_invariant[where P = "\<lambda>sr. water_left (fst sr) = water_left sw \<and>
      refill_timers (fst sr) = refill_timers sw \<and> num_drones (fst sr) = num_drones sw"])
    (simp_all add: move_drone_water)

lemma update_best_water:
  "water_left (update_best env i sw) = water_left sw \<and>
   refill_timers (update_best env i sw) = refill_timers sw \<and>
   num_drones (update_best env i sw) = num_drones sw"
  by (simp add: update_best_def Let_def)

lemma best_pass_water:
  "water_left (best_pass env sw) = water_left sw \<and>
   refill_timers (best_pass env sw) = refill_timers sw \<and>
   num_drones (best_pass env sw) = num_drones sw"
  unfolding best_pass_def
  by (rule fold_invariant[where P = "\<lambda>sw'. water_left sw' = water_left sw \<and>
      refill_timers sw' = refill_timers sw \<and> num_drones sw' = num_drones sw"])
    (simp_all add: update_best_water)

lemma step_water_outcome:
  assumes "wf_env env" "water_inv sw" "i < num_drones sw"
  shows "water_outcome env (sw\<lparr>positions := positions (r_swarm (step env sw t r))\<rparr>) i
      (water_left (r_swarm (step env sw t r)) ! i) (refill_timers (r_swarm (step env sw t r)) ! i)
      (successes i (r_calls (step env sw t r)))"
    and "water_inv (r_swarm (step env sw t r))"
proof -
  let ?sw2 = "best_pass env (fst (move_pass env sw r))"
  let ?s = "suppress_pass env ?sw2 t"
  have w2: "water_left ?sw2 = water_left sw" "refill_timers ?sw2 = refill_timers sw"
    "num_drones ?sw2 = num_drones sw"
    by (simp_all add: best_pass_water move_pass_water)
  then have inv2: "water_inv ?sw2" using assms(2) by (simp add: water_inv_def drone_ok_def)
  have rs: "r_swarm (step env sw t r) = p_swarm ?s" by (rule step_swarm)
  have rc: "r_calls (step env sw t r) = ext_calls ?s"
    by (simp add: step_def Let_def split: prod.splits)
  have po: "pass_ok env ?sw2 {..<num_drones sw} ?s"
    using suppress_pass_water[OF assms(1) inv2, of t] by (simp add: w2)
  then have out: "water_outcome env ?sw2 j (water_left (p_swarm ?s) ! j)
      (refill_timers (p_swarm ?s) ! j) (successes j (ext_calls ?s))" if "j < num_drones sw" for j
    using that unfolding pass_ok_def by blast
  have pos: "positions ?sw2 = positions (r_swarm (step env sw t r))"
    by (simp add: best_pass_positions step_positions)
  show "water_outcome env (sw\<lparr>positions := positions (r_swarm (step env sw t r))\<rparr>) i
      (water_left (r_swarm (step env sw t r)) ! i) (refill_timers (r_swarm (step env sw t r)) ! i)
      (successes i (r_calls (step env sw t r)))"
    unfolding rs rc using out[OF assms(3)] water_outcome_cong[of ?sw2 i
        "sw\<lparr>positions := positions (p_swarm ?s)\<rparr>" env] w2 pos rs by simp
  from po have len: "length (water_left (p_swarm ?s)) = length (water_left ?sw2)"
    "length (refill_timers (p_swarm ?s)) = length (refill_timers ?sw2)"
    and mo: "motion (p_swarm ?s) = motion ?sw2"
    unfolding pass_ok_def by blast+
  from mo have "num_drones (p_swarm ?s) = num_drones sw" by (simp add: motion_def w2)
  moreover have "drone_ok (p_swarm ?s) j" if "j < num_drones sw" for j
    using out[OF that] by (simp add: water_outcome_def drone_ok_def Let_def)
  ultimately show "water_inv (r_swarm (step env sw t r))"
    using len assms(2) by (simp add: rs water_inv_def w2)
qed

lemma new_DroneSwarm_water:
  assumes "new_DroneSwarm env n r = Some (sw, r')"
  shows "water_left sw = replicate n MAX_WATER_CAPACITY" "refill_timers sw = replicate n 0"
    "num_drones sw = n"
  using assms by (auto simp: new_DroneSwarm_def Let_def split: prod.splits option.splits)

text \<open>C4: a new swarm has every drone at \<open>MAX_WATER_CAPACITY\<close> with timer 0.  If every drone
  has its water in \<open>[0, MAX_WATER_CAPACITY]\<close>, its timer in \<open>[0, REFILL_TIME)\<close> and timer 0
  while it has water, then so it is after a step, and for each drone, with \<open>k\<close> the number of
  its successful suppressions in the step: a drone with water loses exactly \<open>k\<close> and keeps
  its timer (each call of the scan takes exactly 1 when it succeeds and nothing otherwise); a
  drone without water makes no suppression; over a water cell its timer goes up by 1, and
  when that makes \<open>REFILL_TIME\<close> the water is reset to \<open>MAX_WATER_CAPACITY\<close> and the timer to
  0; elsewhere water and timer stay.  So the water only goes up by the reset, on the
  \<open>REFILL_TIME\<close>-th tick over water since the drone ran empty.\<close>

theorem water_left_in_range:
  assumes "wf_env env" "water_inv sw" "i < num_drones sw"
  shows "(let res = step env sw t r; sw' = r_swarm res;
              w = water_left sw ! i; w' = water_left sw' ! i;
              tm = refill_timers sw ! i; tm' = refill_timers sw' ! i;
              k = successes i (r_calls res);
              x = \<lfloor>fst (positions sw' ! i)\<rfloor>; y = \<lfloor>snd (positions sw' ! i)\<rfloor>;
              on_water = (in_bounds env x y \<and> water (cell_at env x y))
          in water_inv sw' \<and> 0 \<le> w' \<and> w' \<le> MAX_WATER_CAPACITY \<and>
             (0 < w \<longrightarrow> w' = w - k \<and> 0 \<le> k \<and> tm' = tm) \<and>
             (w = 0 \<longrightarrow> k = 0) \<and>
             (w = 0 \<and> on_water \<and> tm + 1 = REFILL_TIME \<longrightarrow> w' = MAX_WATER_CAPACITY \<and> tm' = 0) \<and>
             (w = 0 \<and> on_water \<and> tm + 1 < REFILL_TIME \<longrightarrow> w' = 0 \<and> tm' = tm + 1) \<and>
             (w = 0 \<and> \<not> on_water \<longrightarrow> w' = 0 \<and> tm' = tm)) \<and>
     water_left (p_swarm (scan_cell i x0 y0 dx dy s)) =
       (if fst (extinguish_fire_at (p_env s) (x0 + dx) (y0 + dy) (Some (x0, y0)) (p_clock s))
        then (water_left (p_swarm s))[i := water_left (p_swarm s) ! i - 1]
        else water_left (p_swarm s)) \<and>
     (new_DroneSwarm env n r = Some (sw0, r0) \<longrightarrow>
        water_inv sw0 \<and> water_left sw0 = replicate n MAX_WATER_CAPACITY \<and>
        refill_timers sw0 = replicate n 0)"
proof (intro conjI impI)
  from step_water_outcome[OF assms, of t r]
  show "(let res = step env sw t r; sw' = r_swarm res;
              w = water_left sw ! i; w' = water_left sw' ! i;
              tm = refill_timers sw ! i; tm' = refill_timers sw' ! i;
              k = successes i (r_calls res);
              x = \<lfloor>fst (positions sw' ! i)\<rfloor>; y = \<lfloor>snd (positions sw' ! i)\<rfloor>;
              on_water = (in_bounds env x y \<and> water (cell_at env x y))
          in water_inv sw' \<and> 0 \<le> w' \<and> w' \<le> MAX_WATER_CAPACITY \<and>
             (0 < w \<longrightarrow> w' = w - k \<and> 0 \<le> k \<and> tm' = tm) \<and>
             (w = 0 \<longrightarrow> k = 0) \<and>
             (w = 0 \<and> on_water \<and> tm + 1 = REFILL_TIME \<longrightarrow> w' = MAX_WATER_CAPACITY \<and> tm' = 0) \<and>
             (w = 0 \<and> on_water \<and> tm + 1 < REFILL_TIME \<longrightarrow> w' = 0 \<and> tm' = tm + 1) \<and>
             (w = 0 \<and> \<not> on_water \<longrightarrow> w' = 0 \<and> tm' = tm))"
    unfolding water_outcome_def Let_def by simp
next
  show "water_left (p_swarm (scan_cell i x0 y0 dx dy s)) =
       (if fst (extinguish_fire_at (p_env s) (x0 + dx) (y0 + dy) (Some (x0, y0)) (p_clock s))
        then (water_left (p_swarm s))[i := water_left (p_swarm s) ! i - 1]
        else water_left (p_swarm s))"
    by (simp add: scan_cell_swarm)
next
  assume c: "new_DroneSwarm env n r = Some (sw0, r0)"
  note w = new_DroneSwarm_water[OF c]
  show "water_left sw0 = replicate n MAX_WATER_CAPACITY" "refill_timers sw0 = replicate n 0"
    by (rule w)+
  show "water_inv sw0"
    by (simp add: water_inv_def drone_ok_def w MAX_WATER_CAPACITY_def REFILL_TIME_def)
qed

theorem water_left_in_range_witness:
  "wf_env env_1x3 \<and> water_inv one_drone \<and> 0 < num_drones one_drone \<and>
   water_left one_drone ! 0 = 3 \<and>
   successes 0 (r_calls (step env_1x3 one_drone (Some 0) (sconst 0))) = 1 \<and>
   water_left (r_swarm (step env_1x3 one_drone (Some 0) (sconst 0))) ! 0 = 2 \<and>
   water_inv (r_swarm (step env_1x3 one_drone (Some 0) (sconst 0)))"
proof -
  have h: "wf_env env_1x3" "water_inv one_drone" "0 < num_drones one_drone"
    by (simp_all add: env_1x3_def wf_env_def one_drone_def water_inv_def drone_ok_def
        MAX_WATER_CAPACITY_def REFILL_TIME_def)
  have k: "successes 0 (r_calls (step env_1x3 one_drone (Some 0) (sconst 0))) = 1"
    by (simp add: one_drone_step successes_def call_from_def)
  have w: "water_left one_drone ! 0 = 3" by (simp add: one_drone_def)
  from water_left_in_range[OF h, where t = "Some 0" and r = "sconst 0"] h k w
  show ?thesis by (simp add: Let_def)
qed

end
